theory Spec2Isabelle
  imports Main "HOL-Library.AList" "HOL-Library.Multiset" "HOL-Library.Product_Lexorder"
begin

section \<open>Data model of \<open>randomseat_plus.py\<close>\<close>

text \<open>
  The dataclass \<open>Seat\<close> (fields \<open>id\<close>, \<open>row\<close>, \<open>col\<close>). The field \<open>id\<close> is
  written \<open>id_Seat\<close>, since \<open>id\<close> is the identity function of HOL.
\<close>

record Seat =
  id_Seat :: int
  row :: int
  col :: int

text \<open>
  The dataclass \<open>StudentConstraint\<close>. \<open>allowed_rows\<close> and \<open>allowed_cols\<close> are
  \<open>set | None\<close>; the code only tests membership and truthiness of them. The two
  relational sets are also iterated and measured with \<open>len\<close>: they are kept as the list of
  their elements in the order in which Python iterates the set.
\<close>

record StudentConstraint =
  id_SC :: int
  allowed_rows :: "int set option"
  allowed_cols :: "int set option"
  must_be_adjacent_to :: "int list"
  must_not_adjacent_to :: "int list"

text \<open>
  The exceptions of a run: a \<open>KeyError\<close> from a subscript or a \<open>del\<close>, and the
  interpreter's \<open>RecursionError\<close> when calls nest deeper than its recursion limit.
\<close>

datatype error = KeyError | RecursionError

type_synonym 'a res = "error + 'a"

text \<open>
  An adjacency map is a dictionary from seat id to a set of seat ids.
  \<open>build_adjacency_maps\<close> creates \<open>collections.defaultdict(set)\<close> objects, the solver's
  signature says \<open>dict[int, set[int]]\<close>: \<open>default_set\<close> tells the two apart. Reading a
  missing key of a \<open>defaultdict(set)\<close> stores an empty set under that key and returns it;
  reading a missing key of a plain \<open>dict\<close> raises \<open>KeyError\<close>.
\<close>

record adj_map =
  default_set :: bool
  entries :: "int \<rightharpoonup> int set"

definition getitem :: "adj_map \<Rightarrow> int \<Rightarrow> (int set \<times> adj_map) res" where
  "getitem d k =
     (case entries d k of
        Some v \<Rightarrow> Inr (v, d)
      | None \<Rightarrow> if default_set d then Inr ({}, d\<lparr>entries := (entries d)(k \<mapsto> {})\<rparr>)
                else Inl KeyError)"

text \<open>
  The set stored under a key, the empty set when the key is missing: what the expression
  \<open>d[k]\<close> evaluates to on a \<open>defaultdict(set)\<close>.
\<close>

definition content :: "(int \<rightharpoonup> int set) \<Rightarrow> int \<Rightarrow> int set" where
  "content m k = (case m k of None \<Rightarrow> {} | Some s \<Rightarrow> s)"

definition neighbours :: "adj_map \<Rightarrow> int \<Rightarrow> int set" where
  "neighbours d k = content (entries d) k"

section \<open>\<open>build_adjacency_maps\<close>\<close>

text \<open>\<open>d[k].add(v)\<close> on the entries of a \<open>defaultdict(set)\<close>.\<close>

definition dd_add :: "int \<Rightarrow> int \<Rightarrow> (int \<rightharpoonup> int set) \<Rightarrow> (int \<rightharpoonup> int set)" where
  "dd_add k v m = m(k \<mapsto> insert v (case m k of None \<Rightarrow> {} | Some s \<Rightarrow> s))"

text \<open>The body of the inner loop, for one ordered pair of seats.\<close>

definition adj_step ::
  "Seat \<Rightarrow> Seat \<Rightarrow> (int \<rightharpoonup> int set) \<times> (int \<rightharpoonup> int set) \<Rightarrow>
     (int \<rightharpoonup> int set) \<times> (int \<rightharpoonup> int set)" where
  "adj_step s1 s2 acc =
     (if id_Seat s1 = id_Seat s2 then acc
      else
        let dr = \<bar>row s1 - row s2\<bar>;
            dc = \<bar>col s1 - col s2\<bar>;
            lr = (if dr = 0 \<and> dc = 1 then dd_add (id_Seat s1) (id_Seat s2) (fst acc)
                  else fst acc);
            a9 = (if dr \<le> 1 \<and> dc \<le> 1 then dd_add (id_Seat s1) (id_Seat s2) (snd acc)
                  else snd acc)
        in (lr, a9))"

definition adj_loops ::
  "Seat list \<Rightarrow> Seat list \<Rightarrow> (int \<rightharpoonup> int set) \<times> (int \<rightharpoonup> int set) \<Rightarrow>
     (int \<rightharpoonup> int set) \<times> (int \<rightharpoonup> int set)" where
  "adj_loops outer inner acc = fold (\<lambda>s1. fold (\<lambda>s2. adj_step s1 s2) inner) outer acc"

definition build_adjacency_maps :: "Seat list \<Rightarrow> adj_map \<times> adj_map" where
  "build_adjacency_maps seats =
     (let acc = adj_loops seats seats (Map.empty, Map.empty)
      in (\<lparr>default_set = True, entries = fst acc\<rparr>, \<lparr>default_set = True, entries = snd acc\<rparr>))"

text \<open>The two geometric relations on seats that the loop body tests.\<close>

definition lr_pair :: "Seat \<Rightarrow> Seat \<Rightarrow> bool" where
  "lr_pair s1 s2 \<longleftrightarrow>
     id_Seat s1 \<noteq> id_Seat s2 \<and> \<bar>row s1 - row s2\<bar> = 0 \<and> \<bar>col s1 - col s2\<bar> = 1"

definition box_pair :: "Seat \<Rightarrow> Seat \<Rightarrow> bool" where
  "box_pair s1 s2 \<longleftrightarrow>
     id_Seat s1 \<noteq> id_Seat s2 \<and> \<bar>row s1 - row s2\<bar> \<le> 1 \<and> \<bar>col s1 - col s2\<bar> \<le> 1"

section \<open>Constraint checking\<close>

type_synonym constraints = "int \<rightharpoonup> StudentConstraint"

text \<open>
  \<open>assignments: dict[int, int]\<close> keeps insertion order, and \<open>check_partial_constraints\<close>
  iterates over its items: the dictionary is the list of its items. \<open>AList.update\<close> is
  \<open>assignments[k] = v\<close> (an existing key keeps its place, a new one goes last),
  \<open>AList.delete\<close> is \<open>del assignments[k]\<close> on a key that is present.
\<close>

type_synonym assignment = "(int \<times> int) list"

definition is_seat_allowed_for_student :: "Seat \<Rightarrow> StudentConstraint option \<Rightarrow> bool" where
  "is_seat_allowed_for_student seat sc =
     (case sc of
        None \<Rightarrow> True
      | Some c \<Rightarrow>
          if (case allowed_rows c of None \<Rightarrow> False | Some rs \<Rightarrow> row seat \<notin> rs) then False
          else if (case allowed_cols c of None \<Rightarrow> False | Some cs \<Rightarrow> col seat \<notin> cs) then False
          else True)"

text \<open>
  The checker reads the seat from \<open>st.session_state["seat_by_id"][seat_id]\<close>, the
  Streamlit session, and not from an argument. The session is a parameter of the model;
  \<open>seat_by_id\<close> is \<open>None\<close> when the session has no such entry. Both subscripts raise
  \<open>KeyError\<close> on a missing key.
\<close>

record session_state =
  seat_by_id :: "(int \<rightharpoonup> Seat) option"

definition session_seat :: "session_state \<Rightarrow> int \<Rightarrow> Seat res" where
  "session_seat ss seat_id =
     (case seat_by_id ss of
        None \<Rightarrow> Inl KeyError
      | Some m \<Rightarrow> (case m seat_id of None \<Rightarrow> Inl KeyError | Some seat \<Rightarrow> Inr seat))"

text \<open>
  The loop over \<open>sc.must_be_adjacent_to\<close>. The boolean is \<open>False\<close> when the loop
  leaves the function with \<open>return False\<close>, \<open>True\<close> when it runs to its end. The
  adjacency map comes back because \<open>adjacent_lr[seat_id]\<close> may store a key.
\<close>

fun must_be_loop :: "int list \<Rightarrow> assignment \<Rightarrow> int \<Rightarrow> adj_map \<Rightarrow> (bool \<times> adj_map) res" where
  "must_be_loop [] a seat_id lr = Inr (True, lr)"
| "must_be_loop (other # rest) a seat_id lr =
     (case map_of a other of
        None \<Rightarrow> must_be_loop rest a seat_id lr
      | Some other_seat \<Rightarrow>
          (case getitem lr seat_id of
             Inl e \<Rightarrow> Inl e
           | Inr (nb, lr') \<Rightarrow>
               if other_seat \<notin> nb then Inr (False, lr')
               else must_be_loop rest a seat_id lr'))"

text \<open>The loop over \<open>sc.must_not_adjacent_to\<close>.\<close>

fun must_not_loop ::
  "int list \<Rightarrow> assignment \<Rightarrow> int \<Rightarrow> bool \<Rightarrow> adj_map \<Rightarrow> adj_map \<Rightarrow>
     (bool \<times> adj_map \<times> adj_map) res" where
  "must_not_loop [] a seat_id strict lr a9 = Inr (True, lr, a9)"
| "must_not_loop (other # rest) a seat_id strict lr a9 =
     (case map_of a other of
        None \<Rightarrow> must_not_loop rest a seat_id strict lr a9
      | Some other_seat \<Rightarrow>
          if strict then
            (case getitem a9 seat_id of
               Inl e \<Rightarrow> Inl e
             | Inr (nb, a9') \<Rightarrow>
                 if other_seat \<in> nb then Inr (False, lr, a9')
                 else must_not_loop rest a seat_id strict lr a9')
          else
            (case getitem lr seat_id of
               Inl e \<Rightarrow> Inl e
             | Inr (nb, lr') \<Rightarrow>
                 if other_seat \<in> nb then Inr (False, lr', a9)
                 else must_not_loop rest a seat_id strict lr' a9))"

text \<open>
  The reverse check, \<open>for other, other_seat in assignments.items()\<close>: first the other
  student's \<open>must_be_adjacent_to\<close>, then its \<open>must_not_adjacent_to\<close>.
\<close>

definition incoming_must_be ::
  "StudentConstraint \<Rightarrow> int \<Rightarrow> int \<Rightarrow> int \<Rightarrow> adj_map \<Rightarrow> (bool \<times> adj_map) res" where
  "incoming_must_be osc student_id seat_id other_seat lr =
     (if student_id \<in> set (must_be_adjacent_to osc) then
        (case getitem lr seat_id of
           Inl e \<Rightarrow> Inl e
         | Inr (nb, lr') \<Rightarrow> Inr (other_seat \<in> nb, lr'))
      else Inr (True, lr))"

definition incoming_must_not ::
  "StudentConstraint \<Rightarrow> int \<Rightarrow> int \<Rightarrow> int \<Rightarrow> bool \<Rightarrow> adj_map \<Rightarrow> adj_map \<Rightarrow>
     (bool \<times> adj_map \<times> adj_map) res" where
  "incoming_must_not osc student_id seat_id other_seat strict lr a9 =
     (if student_id \<in> set (must_not_adjacent_to osc) then
        (if strict then
           (case getitem a9 other_seat of
              Inl e \<Rightarrow> Inl e
            | Inr (nb, a9') \<Rightarrow> Inr (seat_id \<notin> nb, lr, a9'))
         else
           (case getitem lr other_seat of
              Inl e \<Rightarrow> Inl e
            | Inr (nb, lr') \<Rightarrow> Inr (seat_id \<notin> nb, lr', a9)))
      else Inr (True, lr, a9))"

fun reverse_loop ::
  "assignment \<Rightarrow> int \<Rightarrow> int \<Rightarrow> constraints \<Rightarrow> bool \<Rightarrow> adj_map \<Rightarrow> adj_map \<Rightarrow>
     (bool \<times> adj_map \<times> adj_map) res" where
  "reverse_loop [] student_id seat_id cs strict lr a9 = Inr (True, lr, a9)"
| "reverse_loop ((other, other_seat) # rest) student_id seat_id cs strict lr a9 =
     (case cs other of
        None \<Rightarrow> reverse_loop rest student_id seat_id cs strict lr a9
      | Some osc \<Rightarrow>
          (case incoming_must_be osc student_id seat_id other_seat lr of
             Inl e \<Rightarrow> Inl e
           | Inr (ok1, lr1) \<Rightarrow>
               if \<not> ok1 then Inr (False, lr1, a9)
               else
                 (case incoming_must_not osc student_id seat_id other_seat strict lr1 a9 of
                    Inl e \<Rightarrow> Inl e
                  | Inr (ok2, lr2, a92) \<Rightarrow>
                      if \<not> ok2 then Inr (False, lr2, a92)
                      else reverse_loop rest student_id seat_id cs strict lr2 a92)))"

text \<open>
  \<open>check_partial_constraints\<close>. Its result is the boolean, or the \<open>KeyError\<close>; the two
  adjacency maps come back as the call leaves them.
\<close>

definition check_partial_constraints ::
  "session_state \<Rightarrow> assignment \<Rightarrow> int \<Rightarrow> int \<Rightarrow> constraints \<Rightarrow> adj_map \<Rightarrow> adj_map \<Rightarrow> bool \<Rightarrow>
     (bool \<times> adj_map \<times> adj_map) res" where
  "check_partial_constraints ss a student_id seat_id cs lr a9 strict =
     (let sc = cs student_id in
      case session_seat ss seat_id of
        Inl e \<Rightarrow> Inl e
      | Inr seat \<Rightarrow>
          if \<not> is_seat_allowed_for_student seat sc then Inr (False, lr, a9)
          else
            (case (case sc of
                     None \<Rightarrow> Inr (True, lr, a9)
                   | Some c \<Rightarrow>
                       (case must_be_loop (must_be_adjacent_to c) a seat_id lr of
                          Inl e \<Rightarrow> Inl e
                        | Inr (ok1, lr1) \<Rightarrow>
                            if \<not> ok1 then Inr (False, lr1, a9)
                            else must_not_loop (must_not_adjacent_to c) a seat_id strict lr1 a9))
             of
               Inl e \<Rightarrow> Inl e
             | Inr (ok2, lr2, a92) \<Rightarrow>
                 if \<not> ok2 then Inr (False, lr2, a92)
                 else reverse_loop a student_id seat_id cs strict lr2 a92))"

section \<open>The random source\<close>

text \<open>
  \<open>random.shuffle\<close> of the standard library is the Fisher-Yates loop
  \<^verbatim>\<open>for i in reversed(range(1, len(x))): j = randbelow(i + 1); x[i], x[j] = x[j], x[i]\<close>.
  The generator is the list of the raw numbers it will draw (\<open>0\<close> once the list is used
  up); \<open>randbelow n\<close> reduces a draw below \<open>n\<close>. Every run of the program draws finitely
  many numbers, so every behaviour of the generator is one such list.
\<close>

type_synonym rng = "nat list"

definition randbelow :: "nat \<Rightarrow> rng \<Rightarrow> nat \<times> rng" where
  "randbelow n g = (case g of [] \<Rightarrow> (0, []) | r # g' \<Rightarrow> (r mod n, g'))"

fun shuffle_loop :: "nat \<Rightarrow> 'a list \<Rightarrow> rng \<Rightarrow> 'a list \<times> rng" where
  "shuffle_loop 0 x g = (x, g)"
| "shuffle_loop (Suc k) x g =
     (let i = Suc k;
          (j, g') = randbelow (i + 1) g
      in shuffle_loop k (x[i := x ! j, j := x ! i]) g')"

definition shuffle :: "'a list \<Rightarrow> rng \<Rightarrow> 'a list \<times> rng" where
  "shuffle x g = shuffle_loop (length x - 1) x g"

section \<open>\<open>solve_one_assignment\<close>\<close>

text \<open>
  Truthiness of a \<open>set | None\<close>: \<open>if sc.allowed_rows:\<close> holds for a set that is present
  and not empty.
\<close>

definition truthy :: "int set option \<Rightarrow> bool" where
  "truthy v = (case v of None \<Rightarrow> False | Some s \<Rightarrow> s \<noteq> {})"

definition constraint_score :: "constraints \<Rightarrow> int \<Rightarrow> int" where
  "constraint_score cs sid =
     (case cs sid of
        None \<Rightarrow> 0
      | Some sc \<Rightarrow>
          (let score = 0;
               score = (if truthy (allowed_rows sc) then score + 2 else score);
               score = (if truthy (allowed_cols sc) then score + 2 else score);
               score = score + 3 * int (length (must_be_adjacent_to sc));
               score = score + 3 * int (length (must_not_adjacent_to sc))
           in score))"

text \<open>
  \<open>sorted(students, key=constraint_score, reverse=True)\<close>: Python's sort is stable, also
  with \<open>reverse=True\<close>, so it is the stable sort by the negated score.
\<close>

definition students_sorted :: "constraints \<Rightarrow> int list \<Rightarrow> int list" where
  "students_sorted cs students = sort_key (\<lambda>sid. - constraint_score cs sid) students"

text \<open>
  What the search changes while it runs: the dictionary \<open>assignments\<close>, the random
  generator, and the two adjacency maps (through the checker).
\<close>

record solver_state =
  assignments :: assignment
  rng_state :: rng
  adj_lr :: adj_map
  adj_9 :: adj_map

text \<open>The candidate loop of \<open>backtrack\<close>, before the shuffle.\<close>

definition candidate_seats :: "Seat list \<Rightarrow> assignment \<Rightarrow> StudentConstraint option \<Rightarrow> int list" where
  "candidate_seats seats a sc =
     map id_Seat
       (filter (\<lambda>seat. id_Seat seat \<notin> snd ` set a \<and> is_seat_allowed_for_student seat sc)
          seats)"

text \<open>
  \<open>backtrack(idx)\<close> works on \<open>students_sorted[idx:]\<close>, the students still to place, which
  is the list argument here; \<open>try_seats\<close> is its loop over the shuffled candidates.
  \<open>del assignments[sid]\<close> raises \<open>KeyError\<close> when the key is gone. Here the stack is
  unbounded: this is what the search computes when the interpreter's recursion limit is not
  met. The run on a bounded stack, which can raise \<open>RecursionError\<close>, is \<open>backtrack_lim\<close>
  below.
\<close>

function backtrack ::
  "session_state \<Rightarrow> Seat list \<Rightarrow> constraints \<Rightarrow> bool \<Rightarrow> int list \<Rightarrow> solver_state \<Rightarrow>
     (bool \<times> solver_state) res"
and try_seats ::
  "session_state \<Rightarrow> Seat list \<Rightarrow> constraints \<Rightarrow> bool \<Rightarrow> int \<Rightarrow> int list \<Rightarrow> int list \<Rightarrow>
     solver_state \<Rightarrow> (bool \<times> solver_state) res" where
  "backtrack ss seats cs strict [] st = Inr (True, st)"
| "backtrack ss seats cs strict (sid # rest) st =
     (let sc = cs sid;
          cand = candidate_seats seats (assignments st) sc;
          sh = shuffle cand (rng_state st)
      in try_seats ss seats cs strict sid rest (fst sh) (st\<lparr>rng_state := snd sh\<rparr>))"
| "try_seats ss seats cs strict sid rest [] st = Inr (False, st)"
| "try_seats ss seats cs strict sid rest (seat_id # others) st =
     (case check_partial_constraints ss (assignments st) sid seat_id cs (adj_lr st) (adj_9 st)
             strict of
        Inl e \<Rightarrow> Inl e
      | Inr (ok, lr', a9') \<Rightarrow>
          if \<not> ok then try_seats ss seats cs strict sid rest others (st\<lparr>adj_lr := lr', adj_9 := a9'\<rparr>)
          else
            (case backtrack ss seats cs strict rest
                    (st\<lparr>adj_lr := lr', adj_9 := a9',
                        assignments := AList.update sid seat_id (assignments st)\<rparr>) of
               Inl e \<Rightarrow> Inl e
             | Inr (found, st') \<Rightarrow>
                 if found then Inr (True, st')
                 else if sid \<in> fst ` set (assignments st') then
                   try_seats ss seats cs strict sid rest others
                     (st'\<lparr>assignments := AList.delete sid (assignments st')\<rparr>)
                 else Inl KeyError))"
  by pat_completeness auto
termination
  by (relation "measures
        [\<lambda>x. case x of Inl (ss, seats, cs, strict, studs, st) \<Rightarrow> 2 * length studs
                     | Inr (ss, seats, cs, strict, sid, rest, cands, st) \<Rightarrow> 2 * length rest + 1,
         \<lambda>x. case x of Inl _ \<Rightarrow> 0
                     | Inr (ss, seats, cs, strict, sid, rest, cands, st) \<Rightarrow> length cands]")
     auto

text \<open>
  \<open>solve_one_assignment\<close> returns the dictionary or \<open>None\<close>; the state comes back with
  it, since the caller's generator and adjacency maps have changed.
\<close>

definition solve_one_assignment ::
  "session_state \<Rightarrow> int list \<Rightarrow> Seat list \<Rightarrow> constraints \<Rightarrow> adj_map \<Rightarrow> adj_map \<Rightarrow> bool \<Rightarrow> rng \<Rightarrow>
     (assignment option \<times> solver_state) res" where
  "solve_one_assignment ss students seats cs lr a9 strict g =
     (case backtrack ss seats cs strict (students_sorted cs students)
             \<lparr>assignments = [], rng_state = g, adj_lr = lr, adj_9 = a9\<rparr> of
        Inl e \<Rightarrow> Inl e
      | Inr (ok, st) \<Rightarrow> Inr (if ok then Some (assignments st) else None, st))"

section \<open>\<open>generate_multiple_layouts\<close>\<close>

text \<open>
  The variables of the loop, with what the calls change: \<open>students\<close> is the caller's list
  (\<open>random.shuffle(students)\<close> reorders it in place), and the generator and adjacency maps
  are those the solver leaves behind. \<open>attempts\<close> counts the calls of the solver.
\<close>

record gen_state =
  layouts :: "assignment list"
  seen :: "assignment set"
  attempts :: int
  students_arg :: "int list"
  gen_rng :: rng
  gen_lr :: adj_map
  gen_9 :: adj_map

text \<open>\<open>tuple(sorted(result.items()))\<close>: pairs are compared lexicographically.\<close>

definition canonical :: "assignment \<Rightarrow> assignment" where
  "canonical result = sort result"

text \<open>One run of the loop body.\<close>

definition gen_step ::
  "session_state \<Rightarrow> Seat list \<Rightarrow> constraints \<Rightarrow> bool \<Rightarrow> gen_state \<Rightarrow> gen_state res" where
  "gen_step ss seats cs strict s =
     (let sh = shuffle (students_arg s) (gen_rng s);
          s1 = s\<lparr>attempts := attempts s + 1, students_arg := fst sh\<rparr>
      in case solve_one_assignment ss (fst sh) seats cs (gen_lr s) (gen_9 s) strict (snd sh) of
           Inl e \<Rightarrow> Inl e
         | Inr (result, st) \<Rightarrow>
             (let s2 = s1\<lparr>gen_rng := rng_state st, gen_lr := adj_lr st, gen_9 := adj_9 st\<rparr>
              in case result of
                   None \<Rightarrow> Inr s2
                 | Some r \<Rightarrow>
                     (let key = canonical r
                      in if key \<in> seen s2 then Inr s2
                         else Inr (s2\<lparr>seen := insert key (seen s2),
                                      layouts := layouts s2 @ [r]\<rparr>))))"

lemma gen_step_attempts:
  "gen_step ss seats cs strict s = Inr s' \<Longrightarrow> attempts s' = attempts s + 1"
  by (auto simp: gen_step_def Let_def split: sum.splits option.splits if_splits)

function gen_loop ::
  "session_state \<Rightarrow> int \<Rightarrow> int \<Rightarrow> Seat list \<Rightarrow> constraints \<Rightarrow> bool \<Rightarrow> gen_state \<Rightarrow>
     gen_state res" where
  "gen_loop ss num_layouts max_attempts seats cs strict s =
     (if int (length (layouts s)) < num_layouts \<and> attempts s < max_attempts then
        (case gen_step ss seats cs strict s of
           Inl e \<Rightarrow> Inl e
         | Inr s' \<Rightarrow> gen_loop ss num_layouts max_attempts seats cs strict s')
      else Inr s)"
  by pat_completeness auto
termination
  by (relation "measure (\<lambda>(ss, num_layouts, max_attempts, seats, cs, strict, s).
                  nat (max_attempts - attempts s))")
     (auto dest: gen_step_attempts)

declare gen_loop.simps [simp del]

text \<open>
  \<open>generate_multiple_layouts\<close>. \<open>gen_init\<close> is the state before the loop
  (\<open>layouts = []\<close>, \<open>seen = set()\<close>, \<open>attempts = 0\<close>). The returned list is \<open>layouts\<close> of
  the final state; \<open>students_arg\<close> of it is the caller's list after the call.
\<close>

definition gen_init :: "int list \<Rightarrow> adj_map \<Rightarrow> adj_map \<Rightarrow> rng \<Rightarrow> gen_state" where
  "gen_init students lr a9 g =
     \<lparr>layouts = [], seen = {}, attempts = 0, students_arg = students,
      gen_rng = g, gen_lr = lr, gen_9 = a9\<rparr>"

definition generate_multiple_layouts ::
  "session_state \<Rightarrow> int \<Rightarrow> int list \<Rightarrow> Seat list \<Rightarrow> constraints \<Rightarrow> adj_map \<Rightarrow> adj_map \<Rightarrow> bool \<Rightarrow>
     rng \<Rightarrow> gen_state res" where
  "generate_multiple_layouts ss num_layouts students seats cs lr a9 strict g =
     (let max_attempts = num_layouts * 30
      in gen_loop ss num_layouts max_attempts seats cs strict (gen_init students lr a9 g))"

section \<open>The interpreter's recursion limit\<close>

text \<open>
  The interpreter raises \<open>RecursionError\<close> when a call of a Python function would nest
  deeper than its recursion limit, and \<open>backtrack\<close> nests one call per student. The
  functions of this section are the solver and the generator run on a bounded stack. Their
  first argument, \<open>sd\<close>, is how deep the subscripts \<open>st.session_state["seat_by_id"][seat_id]\<close>
  nest calls inside the session's own code (0 for a plain \<open>dict\<close>); the second is the number
  of calls that the body of the function can still nest. A call needs one of them, and the
  body of the callee has one less. Subscripts of dictionaries, \<open>sorted\<close>, \<open>len\<close>, \<open>tuple\<close>
  and the methods of \<open>dict\<close>, \<open>list\<close> and \<open>set\<close> nest no Python call.

  \<open>random.shuffle\<close> is one call, and it calls \<open>_randbelow\<close> when the list has two
  elements or more.
\<close>

definition shuffle_frames :: "'a list \<Rightarrow> nat" where
  "shuffle_frames x = (if length x \<le> 1 then 1 else 2)"

definition shuffle_lim :: "nat \<Rightarrow> 'a list \<Rightarrow> rng \<Rightarrow> ('a list \<times> rng) res" where
  "shuffle_lim b x g = (if b < shuffle_frames x then Inl RecursionError else Inr (shuffle x g))"

text \<open>
  The call of \<open>check_partial_constraints\<close>: the call itself, then in its body the
  subscripts of the session (l.116), then the call of \<open>is_seat_allowed_for_student\<close>
  (l.117); nothing after that calls a Python function.
\<close>

definition check_partial_constraints_lim ::
  "nat \<Rightarrow> nat \<Rightarrow> session_state \<Rightarrow> assignment \<Rightarrow> int \<Rightarrow> int \<Rightarrow> constraints \<Rightarrow> adj_map \<Rightarrow> adj_map \<Rightarrow>
     bool \<Rightarrow> (bool \<times> adj_map \<times> adj_map) res" where
  "check_partial_constraints_lim sd b ss a student_id seat_id cs lr a9 strict =
     (if b < 1 then Inl RecursionError
      else if b - 1 < sd then Inl RecursionError
      else
        (case session_seat ss seat_id of
           Inl e \<Rightarrow> Inl e
         | Inr seat \<Rightarrow>
             if b - 1 < 1 then Inl RecursionError
             else check_partial_constraints ss a student_id seat_id cs lr a9 strict))"

text \<open>
  The loop over the seats in \<open>backtrack\<close> calls \<open>is_seat_allowed_for_student\<close> for every
  seat that is not taken (l.207).
\<close>

definition candidate_seats_lim ::
  "nat \<Rightarrow> Seat list \<Rightarrow> assignment \<Rightarrow> StudentConstraint option \<Rightarrow> int list res" where
  "candidate_seats_lim b seats a sc =
     (if b < 1 \<and> (\<exists>seat \<in> set seats. id_Seat seat \<notin> snd ` set a) then Inl RecursionError
      else Inr (candidate_seats seats a sc))"

text \<open>
  \<open>backtrack\<close> and its loop over the candidates, as \<open>backtrack\<close> and \<open>try_seats\<close>
  above, with the calls counted; the body of the recursive call (l.226) has one less.
\<close>

function backtrack_lim ::
  "nat \<Rightarrow> nat \<Rightarrow> session_state \<Rightarrow> Seat list \<Rightarrow> constraints \<Rightarrow> bool \<Rightarrow> int list \<Rightarrow> solver_state \<Rightarrow>
     (bool \<times> solver_state) res"
and try_seats_lim ::
  "nat \<Rightarrow> nat \<Rightarrow> session_state \<Rightarrow> Seat list \<Rightarrow> constraints \<Rightarrow> bool \<Rightarrow> int \<Rightarrow> int list \<Rightarrow> int list \<Rightarrow>
     solver_state \<Rightarrow> (bool \<times> solver_state) res" where
  "backtrack_lim sd b ss seats cs strict [] st = Inr (True, st)"
| "backtrack_lim sd b ss seats cs strict (sid # rest) st =
     (case candidate_seats_lim b seats (assignments st) (cs sid) of
        Inl e \<Rightarrow> Inl e
      | Inr cand \<Rightarrow>
          (case shuffle_lim b cand (rng_state st) of
             Inl e \<Rightarrow> Inl e
           | Inr sh \<Rightarrow>
               try_seats_lim sd b ss seats cs strict sid rest (fst sh) (st\<lparr>rng_state := snd sh\<rparr>)))"
| "try_seats_lim sd b ss seats cs strict sid rest [] st = Inr (False, st)"
| "try_seats_lim sd b ss seats cs strict sid rest (seat_id # others) st =
     (case check_partial_constraints_lim sd b ss (assignments st) sid seat_id cs (adj_lr st)
             (adj_9 st) strict of
        Inl e \<Rightarrow> Inl e
      | Inr (ok, lr', a9') \<Rightarrow>
          if \<not> ok then
            try_seats_lim sd b ss seats cs strict sid rest others (st\<lparr>adj_lr := lr', adj_9 := a9'\<rparr>)
          else if b < 1 then Inl RecursionError
          else
            (case backtrack_lim sd (b - 1) ss seats cs strict rest
                    (st\<lparr>adj_lr := lr', adj_9 := a9',
                        assignments := AList.update sid seat_id (assignments st)\<rparr>) of
               Inl e \<Rightarrow> Inl e
             | Inr (found, st') \<Rightarrow>
                 if found then Inr (True, st')
                 else if sid \<in> fst ` set (assignments st') then
                   try_seats_lim sd b ss seats cs strict sid rest others
                     (st'\<lparr>assignments := AList.delete sid (assignments st')\<rparr>)
                 else Inl KeyError))"
  by pat_completeness auto
termination
  by (relation "measures
        [\<lambda>x. case x of Inl (sd, b, ss, seats, cs, strict, studs, st) \<Rightarrow> 2 * length studs
                     | Inr (sd, b, ss, seats, cs, strict, sid, rest, cands, st) \<Rightarrow> 2 * length rest + 1,
         \<lambda>x. case x of Inl _ \<Rightarrow> 0
                     | Inr (sd, b, ss, seats, cs, strict, sid, rest, cands, st) \<Rightarrow> length cands]")
     auto

text \<open>
  \<open>solve_one_assignment\<close>: \<open>sorted\<close> calls \<open>constraint_score\<close> for every student, then
  the body calls \<open>backtrack(0)\<close>; each is one call from the body, so both need one.
\<close>

definition solve_one_assignment_lim ::
  "nat \<Rightarrow> nat \<Rightarrow> session_state \<Rightarrow> int list \<Rightarrow> Seat list \<Rightarrow> constraints \<Rightarrow> adj_map \<Rightarrow> adj_map \<Rightarrow>
     bool \<Rightarrow> rng \<Rightarrow> (assignment option \<times> solver_state) res" where
  "solve_one_assignment_lim sd f ss students seats cs lr a9 strict g =
     (if f < 1 then Inl RecursionError
      else
        (case backtrack_lim sd (f - 1) ss seats cs strict (students_sorted cs students)
                \<lparr>assignments = [], rng_state = g, adj_lr = lr, adj_9 = a9\<rparr> of
           Inl e \<Rightarrow> Inl e
         | Inr (ok, st) \<Rightarrow> Inr (if ok then Some (assignments st) else None, st)))"

text \<open>
  The loop of \<open>generate_multiple_layouts\<close>: \<open>random.shuffle(students)\<close>, then the call of
  the solver.
\<close>

definition gen_step_lim ::
  "nat \<Rightarrow> nat \<Rightarrow> session_state \<Rightarrow> Seat list \<Rightarrow> constraints \<Rightarrow> bool \<Rightarrow> gen_state \<Rightarrow> gen_state res" where
  "gen_step_lim sd f ss seats cs strict s =
     (case shuffle_lim f (students_arg s) (gen_rng s) of
        Inl e \<Rightarrow> Inl e
      | Inr sh \<Rightarrow>
          (let s1 = s\<lparr>attempts := attempts s + 1, students_arg := fst sh\<rparr>
           in if f < 1 then Inl RecursionError
              else
                (case solve_one_assignment_lim sd (f - 1) ss (fst sh) seats cs (gen_lr s) (gen_9 s)
                        strict (snd sh) of
                   Inl e \<Rightarrow> Inl e
                 | Inr (result, st) \<Rightarrow>
                     (let s2 = s1\<lparr>gen_rng := rng_state st, gen_lr := adj_lr st, gen_9 := adj_9 st\<rparr>
                      in case result of
                           None \<Rightarrow> Inr s2
                         | Some r \<Rightarrow>
                             (let key = canonical r
                              in if key \<in> seen s2 then Inr s2
                                 else Inr (s2\<lparr>seen := insert key (seen s2),
                                              layouts := layouts s2 @ [r]\<rparr>))))))"

lemma gen_step_lim_attempts:
  "gen_step_lim sd f ss seats cs strict s = Inr s' \<Longrightarrow> attempts s' = attempts s + 1"
  by (auto simp: gen_step_lim_def Let_def split: sum.splits option.splits if_splits)

function gen_loop_lim ::
  "nat \<Rightarrow> nat \<Rightarrow> session_state \<Rightarrow> int \<Rightarrow> int \<Rightarrow> Seat list \<Rightarrow> constraints \<Rightarrow> bool \<Rightarrow> gen_state \<Rightarrow>
     gen_state res" where
  "gen_loop_lim sd f ss num_layouts max_attempts seats cs strict s =
     (if int (length (layouts s)) < num_layouts \<and> attempts s < max_attempts then
        (case gen_step_lim sd f ss seats cs strict s of
           Inl e \<Rightarrow> Inl e
         | Inr s' \<Rightarrow> gen_loop_lim sd f ss num_layouts max_attempts seats cs strict s')
      else Inr s)"
  by pat_completeness auto
termination
  by (relation "measure (\<lambda>(sd, f, ss, num_layouts, max_attempts, seats, cs, strict, s).
                  nat (max_attempts - attempts s))")
     (auto dest: gen_step_lim_attempts)

declare gen_loop_lim.simps [simp del]

definition generate_multiple_layouts_lim ::
  "nat \<Rightarrow> nat \<Rightarrow> session_state \<Rightarrow> int \<Rightarrow> int list \<Rightarrow> Seat list \<Rightarrow> constraints \<Rightarrow> adj_map \<Rightarrow> adj_map \<Rightarrow>
     bool \<Rightarrow> rng \<Rightarrow> gen_state res" where
  "generate_multiple_layouts_lim sd f ss num_layouts students seats cs lr a9 strict g =
     (let max_attempts = num_layouts * 30
      in gen_loop_lim sd f ss num_layouts max_attempts seats cs strict (gen_init students lr a9 g))"

section \<open>Predicates of the statements\<close>

text \<open>
  What a call may do to an adjacency map: nothing on a plain \<open>dict\<close>; on a
  \<open>defaultdict(set)\<close>, store the empty set under keys that were missing.
\<close>

definition grown :: "adj_map \<Rightarrow> adj_map \<Rightarrow> bool" where
  "grown d d' \<longleftrightarrow>
     default_set d' = default_set d \<and>
     (\<forall>k. entries d' k = entries d k \<or>
          (default_set d \<and> entries d k = None \<and> entries d' k = Some {}))"

text \<open>
  The seat \<open>q\<close> of a student is not adjacent to the seat \<open>p\<close> of the student who
  forbids the adjacency: not in the nine-cell box of \<open>p\<close> in strict mode, not left or
  right of \<open>p\<close> otherwise.
\<close>

definition apart :: "bool \<Rightarrow> (int \<Rightarrow> int set) \<Rightarrow> (int \<Rightarrow> int set) \<Rightarrow> int \<Rightarrow> int \<Rightarrow> bool" where
  "apart strict Nlr N9 p q \<longleftrightarrow> (if strict then q \<notin> N9 p else q \<notin> Nlr p)"

text \<open>
  The invariant of the search. \<open>placed_ok\<close>: the seat id is that of a seat of the layout
  that the student's row and column restrictions allow. \<open>pair_ok\<close>: what the checker
  has tested for two placed students, the first of whom names the second in a relational
  set. \<open>inv\<close>: the dictionary has no key twice and no seat twice, and every entry and every
  pair of entries is in order.
\<close>

definition placed_ok :: "Seat list \<Rightarrow> constraints \<Rightarrow> int \<Rightarrow> int \<Rightarrow> bool" where
  "placed_ok seats cs s p \<longleftrightarrow>
     (\<exists>seat. seat \<in> set seats \<and> id_Seat seat = p \<and> is_seat_allowed_for_student seat (cs s))"

definition pair_ok ::
  "constraints \<Rightarrow> bool \<Rightarrow> (int \<Rightarrow> int set) \<Rightarrow> (int \<Rightarrow> int set) \<Rightarrow> int \<Rightarrow> int \<Rightarrow> int \<Rightarrow> int \<Rightarrow> bool" where
  "pair_ok cs strict Nlr N9 s1 p1 s2 p2 \<longleftrightarrow>
     (\<forall>c. cs s1 = Some c \<longrightarrow>
        (s2 \<in> set (must_be_adjacent_to c) \<longrightarrow> p2 \<in> Nlr p1 \<or> p1 \<in> Nlr p2) \<and>
        (s2 \<in> set (must_not_adjacent_to c) \<longrightarrow> apart strict Nlr N9 p1 p2))"

definition inv ::
  "Seat list \<Rightarrow> constraints \<Rightarrow> bool \<Rightarrow> (int \<Rightarrow> int set) \<Rightarrow> (int \<Rightarrow> int set) \<Rightarrow> assignment \<Rightarrow> bool" where
  "inv seats cs strict Nlr N9 a \<longleftrightarrow>
     distinct (map fst a) \<and> distinct (map snd a) \<and>
     (\<forall>s p. (s, p) \<in> set a \<longrightarrow> placed_ok seats cs s p) \<and>
     (\<forall>s1 p1 s2 p2. (s1, p1) \<in> set a \<longrightarrow> (s2, p2) \<in> set a \<longrightarrow> s1 \<noteq> s2 \<longrightarrow>
        pair_ok cs strict Nlr N9 s1 p1 s2 p2)"

text \<open>
  What a call of \<open>backtrack\<close> on the students \<open>studs\<close> leaves behind: on success
  the keys of \<open>studs\<close> are added; on failure nothing is added, and only keys of
  \<open>studs\<close> can be gone.
\<close>

definition post ::
  "Seat list \<Rightarrow> constraints \<Rightarrow> bool \<Rightarrow> int list \<Rightarrow> solver_state \<Rightarrow> bool \<Rightarrow> solver_state \<Rightarrow> bool" where
  "post seats cs strict studs st ok st' \<longleftrightarrow>
     inv seats cs strict (neighbours (adj_lr st)) (neighbours (adj_9 st)) (assignments st') \<and>
     grown (adj_lr st) (adj_lr st') \<and> grown (adj_9 st) (adj_9 st') \<and>
     (if ok then fst ` set (assignments st') = fst ` set (assignments st) \<union> set studs
      else set (assignments st') \<subseteq> set (assignments st) \<and>
           fst ` set (assignments st) - set studs \<subseteq> fst ` set (assignments st'))"

section \<open>Session set-up and example data\<close>

text \<open>
  \<open>init_session_state\<close>: \<open>if "seat_by_id" not in st.session_state\<close>, it stores
  \<open>{s.id: s for s in seats}\<close> there (a later seat with the same id replaces an earlier
  one); an entry that exists is kept. \<open>fresh_session\<close> is a session that has no entry yet.
\<close>

definition init_session_state :: "session_state \<Rightarrow> Seat list \<Rightarrow> session_state" where
  "init_session_state ss seats =
     (case seat_by_id ss of
        None \<Rightarrow> ss\<lparr>seat_by_id := Some (fold (\<lambda>s m. m(id_Seat s \<mapsto> s)) seats Map.empty)\<rparr>
      | Some m \<Rightarrow> ss)"

definition fresh_session :: session_state where
  "fresh_session = \<lparr>seat_by_id = None\<rparr>"

text \<open>
  A row of three seats; student 1 restricted to column 1, student 2 forbidding student 1
  as a neighbour, student 3 requiring student 2 as a neighbour.
\<close>

definition seats_row3 :: "Seat list" where
  "seats_row3 = [\<lparr>id_Seat = 1, row = 1, col = 1\<rparr>, \<lparr>id_Seat = 2, row = 1, col = 2\<rparr>,
                 \<lparr>id_Seat = 3, row = 1, col = 3\<rparr>]"

definition cs_row3 :: constraints where
  "cs_row3 =
     [1 \<mapsto> \<lparr>id_SC = 1, allowed_rows = None, allowed_cols = Some {1},
             must_be_adjacent_to = [], must_not_adjacent_to = []\<rparr>,
      2 \<mapsto> \<lparr>id_SC = 2, allowed_rows = None, allowed_cols = None,
             must_be_adjacent_to = [], must_not_adjacent_to = [1]\<rparr>,
      3 \<mapsto> \<lparr>id_SC = 3, allowed_rows = None, allowed_cols = None,
             must_be_adjacent_to = [2], must_not_adjacent_to = []\<rparr>]"

text \<open>The same three seat ids with the first two seats exchanged.\<close>

definition seats_moved :: "Seat list" where
  "seats_moved = [\<lparr>id_Seat = 1, row = 1, col = 2\<rparr>, \<lparr>id_Seat = 2, row = 1, col = 1\<rparr>,
                  \<lparr>id_Seat = 3, row = 1, col = 3\<rparr>]"

text \<open>
  Two seats that are adjacent under neither relation, and two students each of whom
  requires the other as a neighbour.
\<close>

definition seats_far2 :: "Seat list" where
  "seats_far2 = [\<lparr>id_Seat = 1, row = 1, col = 1\<rparr>, \<lparr>id_Seat = 2, row = 3, col = 3\<rparr>]"

definition cs_pair :: constraints where
  "cs_pair =
     [1 \<mapsto> \<lparr>id_SC = 1, allowed_rows = None, allowed_cols = None,
             must_be_adjacent_to = [2], must_not_adjacent_to = []\<rparr>,
      2 \<mapsto> \<lparr>id_SC = 2, allowed_rows = None, allowed_cols = None,
             must_be_adjacent_to = [1], must_not_adjacent_to = []\<rparr>]"

text \<open>A student whose \<open>allowed_rows\<close> is present and empty.\<close>

definition cs_empty_rows :: constraints where
  "cs_empty_rows =
     [1 \<mapsto> \<lparr>id_SC = 1, allowed_rows = Some {}, allowed_cols = None,
             must_be_adjacent_to = [], must_not_adjacent_to = []\<rparr>]"

text \<open>A plain \<open>dict\<close> without keys, as an adjacency map.\<close>

definition plain_empty_dict :: adj_map where
  "plain_empty_dict = \<lparr>default_set = False, entries = Map.empty\<rparr>"

text \<open>Projections of results, for statements about a part of them.\<close>

definition result_of :: "(assignment option \<times> solver_state) res \<Rightarrow> assignment option res" where
  "result_of r = (case r of Inl e \<Rightarrow> Inl e | Inr (a, st) \<Rightarrow> Inr a)"

definition verdict :: "(bool \<times> adj_map \<times> adj_map) res \<Rightarrow> bool res" where
  "verdict r = (case r of Inl e \<Rightarrow> Inl e | Inr (ok, lr, a9) \<Rightarrow> Inr ok)"

definition lr_after :: "(bool \<times> adj_map \<times> adj_map) res \<Rightarrow> adj_map option" where
  "lr_after r = (case r of Inl e \<Rightarrow> None | Inr (ok, lr, a9) \<Rightarrow> Some lr)"

text \<open>An adjacency map is symmetric.\<close>

definition sym_adj :: "adj_map \<Rightarrow> bool" where
  "sym_adj d \<longleftrightarrow> (\<forall>x y. y \<in> neighbours d x \<longleftrightarrow> x \<in> neighbours d y)"

text \<open>
  The score as the specification words it (\<open>+2\<close> if \<open>allowed_rows\<close> is set, \<open>+2\<close> if
  \<open>allowed_cols\<close> is set, \<open>+3\<close> per entry of each relational set), with "set" read as
  "not \<open>None\<close>"; to be compared with \<open>constraint_score\<close>.
\<close>

definition spec_score :: "constraints \<Rightarrow> int \<Rightarrow> int" where
  "spec_score cs sid =
     (case cs sid of
        None \<Rightarrow> 0
      | Some sc \<Rightarrow>
          (if allowed_rows sc \<noteq> None then 2 else 0) + (if allowed_cols sc \<noteq> None then 2 else 0) +
          3 * int (length (must_be_adjacent_to sc)) + 3 * int (length (must_not_adjacent_to sc)))"

text \<open>
  Well-formed calls. \<open>session_has\<close>: the session holds a seat under \<open>seat_by_id\<close> for
  every seat id of the layout, as after \<open>init_session_state\<close> on a fresh
  session. \<open>can_read\<close>: the adjacency
  map can be subscripted with every seat id of \<open>K\<close>, being a \<open>defaultdict(set)\<close> or a
  \<open>dict\<close> with all those keys.
\<close>

definition can_read :: "adj_map \<Rightarrow> int set \<Rightarrow> bool" where
  "can_read d K \<longleftrightarrow> default_set d \<or> K \<subseteq> dom (entries d)"

definition session_has :: "session_state \<Rightarrow> Seat list \<Rightarrow> bool" where
  "session_has ss seats \<longleftrightarrow>
     (\<exists>m. seat_by_id ss = Some m \<and> id_Seat ` set seats \<subseteq> dom m)"

text \<open>
  A legal full assignment of the students: every student once, no seat twice, every
  student on a seat of the layout that its restrictions allow, two students with a
  required adjacency in \<open>adjacent_lr\<close> of each other, two students with a forbidden
  adjacency in neither's \<open>adjacent_9\<close> (strict) or \<open>adjacent_lr\<close> (relaxed).
\<close>

definition legal_assignment ::
  "int list \<Rightarrow> Seat list \<Rightarrow> constraints \<Rightarrow> adj_map \<Rightarrow> adj_map \<Rightarrow> bool \<Rightarrow> assignment \<Rightarrow> bool" where
  "legal_assignment students seats cs lr a9 strict a \<longleftrightarrow>
     distinct (map fst a) \<and> fst ` set a = set students \<and> distinct (map snd a) \<and>
     (\<forall>s p. (s, p) \<in> set a \<longrightarrow> placed_ok seats cs s p) \<and>
     (\<forall>s1 p1 s2 p2 c.
        (s1, p1) \<in> set a \<and> (s2, p2) \<in> set a \<and> s1 \<noteq> s2 \<and> cs s1 = Some c \<longrightarrow>
        (s2 \<in> set (must_be_adjacent_to c) \<longrightarrow>
           p2 \<in> neighbours lr p1 \<and> p1 \<in> neighbours lr p2) \<and>
        (s2 \<in> set (must_not_adjacent_to c) \<longrightarrow>
           (if strict then p2 \<notin> neighbours a9 p1 \<and> p1 \<notin> neighbours a9 p2
            else p2 \<notin> neighbours lr p1 \<and> p1 \<notin> neighbours lr p2)))"

text \<open>
  \<open>gen_iter n\<close>: the body of the loop of \<open>generate_multiple_layouts\<close> run \<open>n\<close> times,
  that is \<open>n\<close> calls of the solver. \<open>gen_inv\<close>: the canonical forms of the collected
  layouts are pairwise different, and \<open>seen\<close> is the set of them.
\<close>

fun gen_iter ::
  "nat \<Rightarrow> session_state \<Rightarrow> Seat list \<Rightarrow> constraints \<Rightarrow> bool \<Rightarrow> gen_state \<Rightarrow> gen_state res" where
  "gen_iter 0 ss seats cs strict s = Inr s"
| "gen_iter (Suc n) ss seats cs strict s =
     (case gen_step ss seats cs strict s of
        Inl e \<Rightarrow> Inl e
      | Inr s' \<Rightarrow> gen_iter n ss seats cs strict s')"

definition gen_inv :: "gen_state \<Rightarrow> bool" where
  "gen_inv s \<longleftrightarrow> distinct (map canonical (layouts s)) \<and> seen s = set (map canonical (layouts s))"

definition gen_summary :: "gen_state res \<Rightarrow> (assignment list \<times> int \<times> int list) res" where
  "gen_summary r = (case r of Inl e \<Rightarrow> Inl e | Inr s \<Rightarrow> Inr (layouts s, attempts s, students_arg s))"

section \<open>Properties of \<open>build_adjacency_maps\<close>\<close>

lemma content_dd_add:
  "content (dd_add k v m) x = (if x = k then insert v (content m k) else content m x)"
  by (simp add: content_def dd_add_def)

lemma adj_step_lr:
  "y \<in> content (fst (adj_step s1 s2 acc)) x \<longleftrightarrow>
     y \<in> content (fst acc) x \<or> (id_Seat s1 = x \<and> id_Seat s2 = y \<and> lr_pair s1 s2)"
  by (auto simp: adj_step_def Let_def content_dd_add lr_pair_def)

lemma adj_step_box:
  "y \<in> content (snd (adj_step s1 s2 acc)) x \<longleftrightarrow>
     y \<in> content (snd acc) x \<or> (id_Seat s1 = x \<and> id_Seat s2 = y \<and> box_pair s1 s2)"
  by (auto simp: adj_step_def Let_def content_dd_add box_pair_def)

lemma inner_fold_lr:
  "y \<in> content (fst (fold (\<lambda>s2. adj_step s1 s2) inner acc)) x \<longleftrightarrow>
     y \<in> content (fst acc) x \<or>
     (\<exists>s2. s2 \<in> set inner \<and> id_Seat s1 = x \<and> id_Seat s2 = y \<and> lr_pair s1 s2)"
  by (induction inner arbitrary: acc) (auto simp: adj_step_lr)

lemma inner_fold_box:
  "y \<in> content (snd (fold (\<lambda>s2. adj_step s1 s2) inner acc)) x \<longleftrightarrow>
     y \<in> content (snd acc) x \<or>
     (\<exists>s2. s2 \<in> set inner \<and> id_Seat s1 = x \<and> id_Seat s2 = y \<and> box_pair s1 s2)"
  by (induction inner arbitrary: acc) (auto simp: adj_step_box)

lemma adj_loops_lr:
  "y \<in> content (fst (adj_loops outer inner acc)) x \<longleftrightarrow>
     y \<in> content (fst acc) x \<or>
     (\<exists>s1 s2. s1 \<in> set outer \<and> s2 \<in> set inner \<and> id_Seat s1 = x \<and> id_Seat s2 = y \<and>
        lr_pair s1 s2)"
  unfolding adj_loops_def
  by (induction outer arbitrary: acc) (auto simp: inner_fold_lr)

lemma adj_loops_box:
  "y \<in> content (snd (adj_loops outer inner acc)) x \<longleftrightarrow>
     y \<in> content (snd acc) x \<or>
     (\<exists>s1 s2. s1 \<in> set outer \<and> s2 \<in> set inner \<and> id_Seat s1 = x \<and> id_Seat s2 = y \<and>
        box_pair s1 s2)"
  unfolding adj_loops_def
  by (induction outer arbitrary: acc) (auto simp: inner_fold_box)

lemma neighbours_build_lr:
  "y \<in> neighbours (fst (build_adjacency_maps seats)) x \<longleftrightarrow>
     (\<exists>s1 s2. s1 \<in> set seats \<and> s2 \<in> set seats \<and> id_Seat s1 = x \<and> id_Seat s2 = y \<and>
        lr_pair s1 s2)"
  using adj_loops_lr [of y seats seats "(Map.empty, Map.empty)" x]
  by (simp add: build_adjacency_maps_def Let_def neighbours_def content_def)

lemma neighbours_build_box:
  "y \<in> neighbours (snd (build_adjacency_maps seats)) x \<longleftrightarrow>
     (\<exists>s1 s2. s1 \<in> set seats \<and> s2 \<in> set seats \<and> id_Seat s1 = x \<and> id_Seat s2 = y \<and>
        box_pair s1 s2)"
  using adj_loops_box [of y seats seats "(Map.empty, Map.empty)" x]
  by (simp add: build_adjacency_maps_def Let_def neighbours_def content_def)

lemma lr_pair_sym: "lr_pair s1 s2 \<longleftrightarrow> lr_pair s2 s1"
  by (auto simp: lr_pair_def)

lemma box_pair_sym: "box_pair s1 s2 \<longleftrightarrow> box_pair s2 s1"
  by (auto simp: box_pair_def)

section \<open>The checker leaves the contents of the adjacency maps alone\<close>

lemma grown_refl: "grown d d"
  by (simp add: grown_def)

lemma grown_trans: "grown d1 d2 \<Longrightarrow> grown d2 d3 \<Longrightarrow> grown d1 d3"
  unfolding grown_def by metis

lemma grown_neighbours: "grown d d' \<Longrightarrow> neighbours d' k = neighbours d k"
  unfolding grown_def neighbours_def content_def by (metis option.simps(4,5))

lemma grown_plain: "grown d d' \<Longrightarrow> \<not> default_set d \<Longrightarrow> d' = d"
  unfolding grown_def by (auto intro!: adj_map.equality)

lemma getitem_grown:
  "getitem d k = Inr (nb, d') \<Longrightarrow> nb = neighbours d k \<and> grown d d'"
  by (auto simp: getitem_def grown_def neighbours_def content_def split: option.splits if_splits)

lemma must_be_loop_grown:
  "must_be_loop xs a seat_id lr = Inr (ok, lr') \<Longrightarrow> grown lr lr'"
proof (induction xs arbitrary: lr)
  case Nil
  then show ?case by (simp add: grown_refl)
next
  case (Cons other rest)
  show ?case
  proof (cases "map_of a other")
    case None
    with Cons show ?thesis by simp
  next
    case (Some other_seat)
    with Cons.prems obtain nb lr1 where g: "getitem lr seat_id = Inr (nb, lr1)"
      and r: "other_seat \<notin> nb \<and> lr' = lr1 \<or> must_be_loop rest a seat_id lr1 = Inr (ok, lr')"
      by (auto split: sum.splits if_splits)
    from g have "grown lr lr1" by (simp add: getitem_grown)
    with r Cons.IH show ?thesis by (blast intro: grown_trans)
  qed
qed

lemma must_not_loop_grown:
  "must_not_loop xs a seat_id strict lr a9 = Inr (ok, lr', a9') \<Longrightarrow>
     grown lr lr' \<and> grown a9 a9'"
proof (induction xs arbitrary: lr a9)
  case Nil
  then show ?case by (simp add: grown_refl)
next
  case (Cons other rest)
  show ?case
  proof (cases "map_of a other")
    case None
    with Cons show ?thesis by simp
  next
    case (Some other_seat)
    show ?thesis
    proof (cases strict)
      case True
      with Some Cons.prems obtain nb a91 where g: "getitem a9 seat_id = Inr (nb, a91)"
        and r: "lr' = lr \<and> a9' = a91 \<or>
                must_not_loop rest a seat_id strict lr a91 = Inr (ok, lr', a9')"
        by (auto split: sum.splits if_splits)
      from g have "grown a9 a91" by (simp add: getitem_grown)
      with r Cons.IH show ?thesis by (blast intro: grown_trans grown_refl)
    next
      case False
      with Some Cons.prems obtain nb lr1 where g: "getitem lr seat_id = Inr (nb, lr1)"
        and r: "lr' = lr1 \<and> a9' = a9 \<or>
                must_not_loop rest a seat_id strict lr1 a9 = Inr (ok, lr', a9')"
        by (auto split: sum.splits if_splits)
      from g have "grown lr lr1" by (simp add: getitem_grown)
      with r Cons.IH show ?thesis by (blast intro: grown_trans grown_refl)
    qed
  qed
qed

lemma incoming_must_be_grown:
  "incoming_must_be osc sid seat_id other_seat lr = Inr (ok, lr') \<Longrightarrow> grown lr lr'"
  by (auto simp: incoming_must_be_def grown_refl split: if_splits sum.splits dest!: getitem_grown)

lemma incoming_must_not_grown:
  "incoming_must_not osc sid seat_id other_seat strict lr a9 = Inr (ok, lr', a9') \<Longrightarrow>
     grown lr lr' \<and> grown a9 a9'"
  by (auto simp: incoming_must_not_def grown_refl split: if_splits sum.splits dest!: getitem_grown)

lemma reverse_loop_grown:
  "reverse_loop a sid seat_id cs strict lr a9 = Inr (ok, lr', a9') \<Longrightarrow>
     grown lr lr' \<and> grown a9 a9'"
proof (induction a arbitrary: lr a9)
  case Nil
  then show ?case by (simp add: grown_refl)
next
  case (Cons p rest)
  obtain other other_seat where p: "p = (other, other_seat)" by (cases p)
  show ?case
  proof (cases "cs other")
    case None
    with Cons p show ?thesis by simp
  next
    case (Some osc)
    with Cons.prems p obtain ok1 lr1 where
      b: "incoming_must_be osc sid seat_id other_seat lr = Inr (ok1, lr1)"
      and r1: "lr' = lr1 \<and> a9' = a9 \<or>
        (\<exists>ok2 lr2 a92.
           incoming_must_not osc sid seat_id other_seat strict lr1 a9 = Inr (ok2, lr2, a92) \<and>
           (lr' = lr2 \<and> a9' = a92 \<or>
            reverse_loop rest sid seat_id cs strict lr2 a92 = Inr (ok, lr', a9')))"
      by (auto split: sum.splits if_splits)
    from b have g1: "grown lr lr1" by (rule incoming_must_be_grown)
    from r1 show ?thesis
    proof
      assume "lr' = lr1 \<and> a9' = a9"
      with g1 show ?thesis by (simp add: grown_refl)
    next
      assume "\<exists>ok2 lr2 a92.
           incoming_must_not osc sid seat_id other_seat strict lr1 a9 = Inr (ok2, lr2, a92) \<and>
           (lr' = lr2 \<and> a9' = a92 \<or>
            reverse_loop rest sid seat_id cs strict lr2 a92 = Inr (ok, lr', a9'))"
      then obtain ok2 lr2 a92 where
        n: "incoming_must_not osc sid seat_id other_seat strict lr1 a9 = Inr (ok2, lr2, a92)"
        and r2: "lr' = lr2 \<and> a9' = a92 \<or>
            reverse_loop rest sid seat_id cs strict lr2 a92 = Inr (ok, lr', a9')"
        by blast
      from n have g2: "grown lr1 lr2 \<and> grown a9 a92" by (rule incoming_must_not_grown)
      with g1 r2 Cons.IH show ?thesis by (blast intro: grown_trans)
    qed
  qed
qed

lemma check_partial_constraints_grown:
  "check_partial_constraints ss a sid seat_id cs lr a9 strict = Inr (ok, lr', a9') \<Longrightarrow>
     grown lr lr' \<and> grown a9 a9'"
proof -
  assume c: "check_partial_constraints ss a sid seat_id cs lr a9 strict = Inr (ok, lr', a9')"
  then obtain seat where s: "session_seat ss seat_id = Inr seat"
    by (auto simp: check_partial_constraints_def Let_def split: sum.splits)
  show ?thesis
  proof (cases "is_seat_allowed_for_student seat (cs sid)")
    case False
    with c s show ?thesis by (simp add: check_partial_constraints_def grown_refl)
  next
    case allowed: True
    define own where "own = (case cs sid of
                     None \<Rightarrow> Inr (True, lr, a9)
                   | Some c \<Rightarrow>
                       (case must_be_loop (must_be_adjacent_to c) a seat_id lr of
                          Inl e \<Rightarrow> Inl e
                        | Inr (ok1, lr1) \<Rightarrow>
                            if \<not> ok1 then Inr (False, lr1, a9)
                            else must_not_loop (must_not_adjacent_to c) a seat_id strict lr1 a9))"
    from c s allowed obtain ok2 lr2 a92 where o: "own = Inr (ok2, lr2, a92)"
      and r: "lr' = lr2 \<and> a9' = a92 \<or>
              reverse_loop a sid seat_id cs strict lr2 a92 = Inr (ok, lr', a9')"
      unfolding own_def by (auto simp: check_partial_constraints_def split: sum.splits if_splits)
    have g: "grown lr lr2 \<and> grown a9 a92"
    proof (cases "cs sid")
      case None
      with o show ?thesis by (simp add: own_def grown_refl)
    next
      case (Some c)
      with o obtain ok1 lr1 where
        b: "must_be_loop (must_be_adjacent_to c) a seat_id lr = Inr (ok1, lr1)"
        and r1: "lr2 = lr1 \<and> a92 = a9 \<or>
                 must_not_loop (must_not_adjacent_to c) a seat_id strict lr1 a9 = Inr (ok2, lr2, a92)"
        by (auto simp: own_def split: sum.splits if_splits)
      from b have "grown lr lr1" by (rule must_be_loop_grown)
      with r1 show ?thesis
        by (blast intro: grown_trans grown_refl dest: must_not_loop_grown)
    qed
    from r g show ?thesis
      by (blast intro: grown_trans dest: reverse_loop_grown)
  qed
qed

section \<open>What a successful check establishes\<close>

lemma must_be_loop_True:
  "must_be_loop xs a seat_id lr = Inr (True, lr') \<Longrightarrow> other \<in> set xs \<Longrightarrow>
     map_of a other = Some os \<Longrightarrow> os \<in> neighbours lr seat_id"
proof (induction xs arbitrary: lr)
  case Nil
  then show ?case by simp
next
  case (Cons x rest)
  show ?case
  proof (cases "map_of a x")
    case None
    with Cons show ?thesis by auto
  next
    case (Some xs')
    with Cons.prems obtain nb lr1 where g: "getitem lr seat_id = Inr (nb, lr1)"
      and in_nb: "xs' \<in> nb" and r: "must_be_loop rest a seat_id lr1 = Inr (True, lr')"
      by (auto split: sum.splits if_splits)
    from g have nb: "nb = neighbours lr seat_id" and gr: "grown lr lr1"
      by (simp_all add: getitem_grown)
    show ?thesis
    proof (cases "other = x")
      case True
      with Some Cons.prems in_nb nb show ?thesis by simp
    next
      case False
      with Cons.prems have "other \<in> set rest" by simp
      from Cons.IH [OF r this Cons.prems(3)] gr show ?thesis
        by (simp add: grown_neighbours)
    qed
  qed
qed

lemma must_not_loop_True:
  "must_not_loop xs a seat_id strict lr a9 = Inr (True, lr', a9') \<Longrightarrow> other \<in> set xs \<Longrightarrow>
     map_of a other = Some os \<Longrightarrow> apart strict (neighbours lr) (neighbours a9) seat_id os"
proof (induction xs arbitrary: lr a9)
  case Nil
  then show ?case by simp
next
  case (Cons x rest)
  show ?case
  proof (cases "map_of a x")
    case None
    with Cons show ?thesis by auto
  next
    case (Some xs')
    show ?thesis
    proof (cases strict)
      case True
      with Some Cons.prems obtain nb a91 where g: "getitem a9 seat_id = Inr (nb, a91)"
        and out_nb: "xs' \<notin> nb"
        and r: "must_not_loop rest a seat_id strict lr a91 = Inr (True, lr', a9')"
        by (auto split: sum.splits if_splits)
      from g have nb: "nb = neighbours a9 seat_id" and gr: "grown a9 a91"
        by (simp_all add: getitem_grown)
      show ?thesis
      proof (cases "other = x")
        case eq: True
        with Some Cons.prems out_nb nb True show ?thesis by (simp add: apart_def)
      next
        case False
        with Cons.prems have "other \<in> set rest" by simp
        from Cons.IH [OF r this Cons.prems(3)] gr True show ?thesis
          by (simp add: apart_def grown_neighbours)
      qed
    next
      case False
      with Some Cons.prems obtain nb lr1 where g: "getitem lr seat_id = Inr (nb, lr1)"
        and out_nb: "xs' \<notin> nb"
        and r: "must_not_loop rest a seat_id strict lr1 a9 = Inr (True, lr', a9')"
        by (auto split: sum.splits if_splits)
      from g have nb: "nb = neighbours lr seat_id" and gr: "grown lr lr1"
        by (simp_all add: getitem_grown)
      show ?thesis
      proof (cases "other = x")
        case eq: True
        with Some Cons.prems out_nb nb False show ?thesis by (simp add: apart_def)
      next
        case ne: False
        with Cons.prems have "other \<in> set rest" by simp
        from Cons.IH [OF r this Cons.prems(3)] gr False show ?thesis
          by (simp add: apart_def grown_neighbours)
      qed
    qed
  qed
qed

lemma incoming_must_be_True:
  "incoming_must_be osc sid seat_id os lr = Inr (True, lr') \<Longrightarrow>
     sid \<in> set (must_be_adjacent_to osc) \<Longrightarrow> os \<in> neighbours lr seat_id"
  by (auto simp: incoming_must_be_def split: sum.splits dest!: getitem_grown)

lemma incoming_must_not_True:
  "incoming_must_not osc sid seat_id os strict lr a9 = Inr (True, lr', a9') \<Longrightarrow>
     sid \<in> set (must_not_adjacent_to osc) \<Longrightarrow>
     apart strict (neighbours lr) (neighbours a9) os seat_id"
  by (auto simp: incoming_must_not_def apart_def split: sum.splits if_splits dest!: getitem_grown)

lemma reverse_loop_True:
  "reverse_loop a sid seat_id cs strict lr a9 = Inr (True, lr', a9') \<Longrightarrow>
     (other, os) \<in> set a \<Longrightarrow> cs other = Some osc \<Longrightarrow>
     (sid \<in> set (must_be_adjacent_to osc) \<longrightarrow> os \<in> neighbours lr seat_id) \<and>
     (sid \<in> set (must_not_adjacent_to osc) \<longrightarrow>
        apart strict (neighbours lr) (neighbours a9) os seat_id)"
proof (induction a arbitrary: lr a9)
  case Nil
  then show ?case by simp
next
  case (Cons p rest)
  obtain x xs' where p: "p = (x, xs')" by (cases p)
  show ?case
  proof (cases "cs x")
    case None
    with Cons.prems p have "(other, os) \<in> set rest" by auto
    with Cons None p show ?thesis by simp
  next
    case (Some xsc)
    with Cons.prems p obtain lr1 lr2 a92 where
      b: "incoming_must_be xsc sid seat_id xs' lr = Inr (True, lr1)"
      and n: "incoming_must_not xsc sid seat_id xs' strict lr1 a9 = Inr (True, lr2, a92)"
      and r: "reverse_loop rest sid seat_id cs strict lr2 a92 = Inr (True, lr', a9')"
      by (auto split: sum.splits if_splits)
    from b have g1: "grown lr lr1" by (rule incoming_must_be_grown)
    from n have g2: "grown lr1 lr2" "grown a9 a92" by (auto dest: incoming_must_not_grown)
    have N: "neighbours lr1 = neighbours lr" "neighbours lr2 = neighbours lr"
      "neighbours a92 = neighbours a9"
      using g1 g2 by (auto simp: grown_neighbours fun_eq_iff)
    show ?thesis
    proof (cases "(other, os) = (x, xs')")
      case True
      with Some Cons.prems(3) have "osc = xsc" by simp
      with True incoming_must_be_True [OF b] incoming_must_not_True [OF n] N
      show ?thesis by auto
    next
      case False
      with Cons.prems p have "(other, os) \<in> set rest" by auto
      from Cons.IH [OF r this Cons.prems(3)] N show ?thesis by simp
    qed
  qed
qed

lemma check_partial_constraints_True:
  assumes "check_partial_constraints ss a sid seat_id cs lr a9 strict = Inr (True, lr', a9')"
  shows "\<exists>seat. session_seat ss seat_id = Inr seat \<and> is_seat_allowed_for_student seat (cs sid)"
    and "cs sid = Some c \<Longrightarrow> other \<in> set (must_be_adjacent_to c) \<Longrightarrow>
           map_of a other = Some os \<Longrightarrow> os \<in> neighbours lr seat_id"
    and "cs sid = Some c \<Longrightarrow> other \<in> set (must_not_adjacent_to c) \<Longrightarrow>
           map_of a other = Some os \<Longrightarrow> apart strict (neighbours lr) (neighbours a9) seat_id os"
    and "(other, os) \<in> set a \<Longrightarrow> cs other = Some osc \<Longrightarrow>
           sid \<in> set (must_be_adjacent_to osc) \<Longrightarrow> os \<in> neighbours lr seat_id"
    and "(other, os) \<in> set a \<Longrightarrow> cs other = Some osc \<Longrightarrow>
           sid \<in> set (must_not_adjacent_to osc) \<Longrightarrow>
           apart strict (neighbours lr) (neighbours a9) os seat_id"
proof -
  from assms obtain seat where s: "session_seat ss seat_id = Inr seat"
    and al: "is_seat_allowed_for_student seat (cs sid)"
    by (auto simp: check_partial_constraints_def Let_def split: sum.splits if_splits)
  then show "\<exists>seat. session_seat ss seat_id = Inr seat \<and> is_seat_allowed_for_student seat (cs sid)"
    by blast
  define own where "own = (case cs sid of
                     None \<Rightarrow> Inr (True, lr, a9)
                   | Some c \<Rightarrow>
                       (case must_be_loop (must_be_adjacent_to c) a seat_id lr of
                          Inl e \<Rightarrow> Inl e
                        | Inr (ok1, lr1) \<Rightarrow>
                            if \<not> ok1 then Inr (False, lr1, a9)
                            else must_not_loop (must_not_adjacent_to c) a seat_id strict lr1 a9))"
  from assms s al obtain lr2 a92 where o: "own = Inr (True, lr2, a92)"
    and r: "reverse_loop a sid seat_id cs strict lr2 a92 = Inr (True, lr', a9')"
    unfolding own_def by (auto simp: check_partial_constraints_def split: sum.splits if_splits)
  have own_facts: "grown lr lr2 \<and> grown a9 a92 \<and>
      (\<forall>c. cs sid = Some c \<longrightarrow>
         (\<exists>lr1. must_be_loop (must_be_adjacent_to c) a seat_id lr = Inr (True, lr1) \<and>
                must_not_loop (must_not_adjacent_to c) a seat_id strict lr1 a9 = Inr (True, lr2, a92)))"
  proof (cases "cs sid")
    case None
    with o show ?thesis by (simp add: own_def grown_refl)
  next
    case (Some c')
    with o obtain lr1 where
      b: "must_be_loop (must_be_adjacent_to c') a seat_id lr = Inr (True, lr1)"
      and n: "must_not_loop (must_not_adjacent_to c') a seat_id strict lr1 a9 = Inr (True, lr2, a92)"
      by (auto simp: own_def split: sum.splits if_splits)
    from b have "grown lr lr1" by (rule must_be_loop_grown)
    moreover from n have "grown lr1 lr2 \<and> grown a9 a92" by (rule must_not_loop_grown)
    ultimately show ?thesis using Some b n by (auto intro: grown_trans)
  qed
  then have N: "neighbours lr2 = neighbours lr" "neighbours a92 = neighbours a9"
    by (auto simp: grown_neighbours fun_eq_iff)
  {
    assume c: "cs sid = Some c"
    with own_facts obtain lr1 where
      b: "must_be_loop (must_be_adjacent_to c) a seat_id lr = Inr (True, lr1)"
      and n: "must_not_loop (must_not_adjacent_to c) a seat_id strict lr1 a9 = Inr (True, lr2, a92)"
      by blast
    from b have N1: "neighbours lr1 = neighbours lr"
      by (auto simp: grown_neighbours fun_eq_iff dest: must_be_loop_grown)
    {
      assume "other \<in> set (must_be_adjacent_to c)" "map_of a other = Some os"
      with b show "os \<in> neighbours lr seat_id" by (rule must_be_loop_True)
    }
    {
      assume "other \<in> set (must_not_adjacent_to c)" "map_of a other = Some os"
      with n N1 show "apart strict (neighbours lr) (neighbours a9) seat_id os"
        by (auto dest: must_not_loop_True)
    }
  }
  {
    assume m: "(other, os) \<in> set a" "cs other = Some osc"
    note rl = reverse_loop_True [OF r m, unfolded N]
    {
      assume "sid \<in> set (must_be_adjacent_to osc)"
      with rl show "os \<in> neighbours lr seat_id" by simp
    }
    {
      assume "sid \<in> set (must_not_adjacent_to osc)"
      with rl show "apart strict (neighbours lr) (neighbours a9) os seat_id" by simp
    }
  }
qed

section \<open>The invariant of the search\<close>

lemma set_update_distinct:
  "distinct (map fst a) \<Longrightarrow> set (AList.update k v a) = insert (k, v) {p \<in> set a. fst p \<noteq> k}"
  by (induction a) (auto simp: rev_image_eqI)

lemma set_delete: "set (AList.delete k a) = {p \<in> set a. fst p \<noteq> k}"
  by (auto simp: AList.delete_eq)

lemma distinct_snd_update:
  "distinct (map snd a) \<Longrightarrow> v \<notin> snd ` set a \<Longrightarrow> distinct (map fst a) \<Longrightarrow>
     distinct (map snd (AList.update k v a))"
proof (induction a)
  case Nil
  then show ?case by simp
next
  case (Cons p a)
  then show ?case
    by (cases p) (auto simp: set_update_distinct rev_image_eqI)
qed

lemma distinct_snd_delete: "distinct (map snd a) \<Longrightarrow> distinct (map snd (AList.delete k a))"
  by (simp add: AList.delete_eq distinct_map_filter)

lemma map_of_distinct_mem: "distinct (map fst a) \<Longrightarrow> (s, p) \<in> set a \<Longrightarrow> map_of a s = Some p"
  by simp

lemma inv_delete:
  "inv seats cs strict Nlr N9 a \<Longrightarrow> inv seats cs strict Nlr N9 (AList.delete k a)"
  unfolding inv_def
  by (auto simp: set_delete distinct_snd_delete AList.distinct_delete)

lemma inv_update:
  assumes i: "inv seats cs strict (neighbours lr) (neighbours a9) a"
    and c: "check_partial_constraints ss a sid seat_id cs lr a9 strict = Inr (True, lr', a9')"
    and free: "seat_id \<notin> snd ` set a"
    and pl: "placed_ok seats cs sid seat_id"
  shows "inv seats cs strict (neighbours lr) (neighbours a9) (AList.update sid seat_id a)"
proof -
  from i have d: "distinct (map fst a)" and ds: "distinct (map snd a)"
    and pos: "\<And>s p. (s, p) \<in> set a \<Longrightarrow> placed_ok seats cs s p"
    and pairs: "\<And>s1 p1 s2 p2. (s1, p1) \<in> set a \<Longrightarrow> (s2, p2) \<in> set a \<Longrightarrow> s1 \<noteq> s2 \<Longrightarrow>
        pair_ok cs strict (neighbours lr) (neighbours a9) s1 p1 s2 p2"
    by (auto simp: inv_def)
  note chk = check_partial_constraints_True [OF c]
  have new_old: "pair_ok cs strict (neighbours lr) (neighbours a9) sid seat_id s2 p2"
    if "(s2, p2) \<in> set a" for s2 p2
  proof -
    from that d have m: "map_of a s2 = Some p2" by simp
    show ?thesis
      unfolding pair_ok_def using chk(2) [OF _ _ m] chk(3) [OF _ _ m] by blast
  qed
  have old_new: "pair_ok cs strict (neighbours lr) (neighbours a9) s1 p1 sid seat_id"
    if "(s1, p1) \<in> set a" for s1 p1
    unfolding pair_ok_def using chk(4) [OF that] chk(5) [OF that] by blast
  have S: "set (AList.update sid seat_id a) = insert (sid, seat_id) {p \<in> set a. fst p \<noteq> sid}"
    using d by (rule set_update_distinct)
  show ?thesis
    unfolding inv_def S
    using d ds free pl pos pairs new_old old_new
    by (auto simp: AList.distinct_update distinct_snd_update)
qed

lemma randbelow_less: "0 < n \<Longrightarrow> fst (randbelow n g) < n"
  by (simp add: randbelow_def split: list.splits)

lemma mset_shuffle_loop:
  "k < length x \<Longrightarrow> mset (fst (shuffle_loop k x g)) = mset x"
proof (induction k arbitrary: x g)
  case 0
  then show ?case by simp
next
  case (Suc k)
  obtain j g' where r: "randbelow (Suc k + 1) g = (j, g')" by (cases "randbelow (Suc k + 1) g")
  have "j < Suc k + 1" using randbelow_less [of "Suc k + 1" g] r by simp
  with Suc.prems have j: "j < length x" by simp
  have "mset (x[Suc k := x ! j, j := x ! Suc k]) = mset x"
    using Suc.prems j by (simp add: mset_swap)
  moreover have "k < length (x[Suc k := x ! j, j := x ! Suc k])" using Suc.prems by simp
  ultimately show ?case using Suc.IH r by (simp add: Let_def)
qed

lemma mset_shuffle: "mset (fst (shuffle x g)) = mset x"
proof (cases x)
  case Nil
  then show ?thesis by (simp add: shuffle_def)
next
  case (Cons y ys)
  then show ?thesis by (simp add: shuffle_def mset_shuffle_loop)
qed

lemma set_shuffle: "set (fst (shuffle x g)) = set x"
  using mset_shuffle [of x g] by (metis set_mset_mset)

lemma candidate_seats_mem:
  "c \<in> set (candidate_seats seats a (cs sid)) \<Longrightarrow> c \<notin> snd ` set a \<and> placed_ok seats cs sid c"
  by (auto simp: candidate_seats_def placed_ok_def)

lemma post_same_assignments:
  assumes p: "post seats cs strict studs st1 ok st'"
    and a: "assignments st1 = assignments st"
    and g: "grown (adj_lr st) (adj_lr st1)" "grown (adj_9 st) (adj_9 st1)"
  shows "post seats cs strict studs st ok st'"
proof -
  have N: "neighbours (adj_lr st1) = neighbours (adj_lr st)"
    "neighbours (adj_9 st1) = neighbours (adj_9 st)"
    using g by (auto simp: grown_neighbours fun_eq_iff)
  from p have g1: "grown (adj_lr st1) (adj_lr st')" and g2: "grown (adj_9 st1) (adj_9 st')"
    by (simp_all add: post_def)
  have "grown (adj_lr st) (adj_lr st')" using g(1) g1 by (rule grown_trans)
  moreover have "grown (adj_9 st) (adj_9 st')" using g(2) g2 by (rule grown_trans)
  ultimately show ?thesis
    using p by (cases ok) (simp_all add: post_def N a)
qed

lemma keys_union_eq:
  fixes X Y A S :: "'a set"
  shows "X = Y \<union> S \<Longrightarrow> A - S \<subseteq> Y \<Longrightarrow> Y \<subseteq> A \<Longrightarrow> X = A \<union> S"
  by blast

lemma keys_diff_sub:
  fixes X Y A S :: "'a set"
  shows "Y - S \<subseteq> X \<Longrightarrow> A - S \<subseteq> Y \<Longrightarrow> A - S \<subseteq> X"
  by blast

lemma try_seats_post:
  assumes BT: "\<And>st ok st'.
      inv seats cs strict (neighbours (adj_lr st)) (neighbours (adj_9 st)) (assignments st) \<Longrightarrow>
      backtrack ss seats cs strict rest st = Inr (ok, st') \<Longrightarrow>
      post seats cs strict rest st ok st'"
  shows "inv seats cs strict (neighbours (adj_lr st)) (neighbours (adj_9 st)) (assignments st) \<Longrightarrow>
     (\<And>c. c \<in> set cands \<Longrightarrow> c \<notin> snd ` set (assignments st) \<and> placed_ok seats cs sid c) \<Longrightarrow>
     try_seats ss seats cs strict sid rest cands st = Inr (ok, st') \<Longrightarrow>
     post seats cs strict (sid # rest) st ok st'"
proof (induction cands arbitrary: st)
  case Nil
  then show ?case by (auto simp: post_def grown_refl)
next
  case (Cons seat_id others)
  let ?a = "assignments st"
  from Cons.prems(3) obtain okc lr' a9' where
    chk: "check_partial_constraints ss ?a sid seat_id cs (adj_lr st) (adj_9 st) strict
            = Inr (okc, lr', a9')"
    by (auto split: sum.splits)
  from check_partial_constraints_grown [OF chk]
  have g: "grown (adj_lr st) lr'" "grown (adj_9 st) a9'" by auto
  then have N: "neighbours lr' = neighbours (adj_lr st)" "neighbours a9' = neighbours (adj_9 st)"
    by (auto simp: grown_neighbours fun_eq_iff)
  define st1 where "st1 = st\<lparr>adj_lr := lr', adj_9 := a9'\<rparr>"
  have st1: "assignments st1 = ?a" "adj_lr st1 = lr'" "adj_9 st1 = a9'"
    by (simp_all add: st1_def)
  show ?case
  proof (cases okc)
    case False
    with Cons.prems(3) chk have t: "try_seats ss seats cs strict sid rest others st1 = Inr (ok, st')"
      by (simp add: st1_def)
    have "post seats cs strict (sid # rest) st1 ok st'"
    proof (rule Cons.IH [OF _ _ t])
      show "inv seats cs strict (neighbours (adj_lr st1)) (neighbours (adj_9 st1)) (assignments st1)"
        using Cons.prems(1) by (simp add: st1 N)
      show "c \<notin> snd ` set (assignments st1) \<and> placed_ok seats cs sid c" if "c \<in> set others" for c
        using Cons.prems(2) [of c] that by (simp add: st1)
    qed
    then show ?thesis
    proof (rule post_same_assignments)
      show "assignments st1 = assignments st" by (simp only: st1)
      show "grown (adj_lr st) (adj_lr st1)" using g(1) by (simp only: st1)
      show "grown (adj_9 st) (adj_9 st1)" using g(2) by (simp only: st1)
    qed
  next
    case True
    define st2 where "st2 = st\<lparr>adj_lr := lr', adj_9 := a9',
                        assignments := AList.update sid seat_id ?a\<rparr>"
    have st2: "assignments st2 = AList.update sid seat_id ?a" "adj_lr st2 = lr'" "adj_9 st2 = a9'"
      by (simp_all add: st2_def)
    from Cons.prems(2) [of seat_id]
    have free: "seat_id \<notin> snd ` set ?a" and pl: "placed_ok seats cs sid seat_id" by simp_all
    have i2: "inv seats cs strict (neighbours (adj_lr st)) (neighbours (adj_9 st))
                (AList.update sid seat_id ?a)"
      using inv_update [OF Cons.prems(1) _ free pl] chk True by simp
    from Cons.prems(3) chk True obtain found st3 where
      bt: "backtrack ss seats cs strict rest st2 = Inr (found, st3)"
      by (auto simp: st2_def split: sum.splits)
    have p3: "post seats cs strict rest st2 found st3"
      by (rule BT [OF _ bt]) (simp add: st2 N i2)
    from Cons.prems(1) have d: "distinct (map fst ?a)" by (simp add: inv_def)
    have keys2: "fst ` set (assignments st2) = insert sid (fst ` set ?a)"
      by (simp add: st2 AList.dom_update)
    show ?thesis
    proof (cases found)
      case True
      with Cons.prems(3) chk \<open>okc\<close> bt have "ok" "st' = st3"
        by (auto simp: st2_def)
      from p3 True have i3: "inv seats cs strict (neighbours (adj_lr st)) (neighbours (adj_9 st))
            (assignments st3)"
        and g3: "grown lr' (adj_lr st3)" "grown a9' (adj_9 st3)"
        and k3: "fst ` set (assignments st3) = fst ` set (assignments st2) \<union> set rest"
        by (simp_all add: post_def st2 N)
      have "grown (adj_lr st) (adj_lr st3)" using g(1) g3(1) by (rule grown_trans)
      moreover have "grown (adj_9 st) (adj_9 st3)" using g(2) g3(2) by (rule grown_trans)
      moreover have "fst ` set (assignments st3) = fst ` set ?a \<union> set (sid # rest)"
        using k3 keys2 by auto
      ultimately show ?thesis
        using i3 \<open>ok\<close> \<open>st' = st3\<close> by (simp add: post_def)
    next
      case False
      with p3 have sub3: "set (assignments st3) \<subseteq> set (AList.update sid seat_id ?a)"
        and keep3: "fst ` set (assignments st2) - set rest \<subseteq> fst ` set (assignments st3)"
        and i3: "inv seats cs strict (neighbours (adj_lr st)) (neighbours (adj_9 st)) (assignments st3)"
        and g3: "grown lr' (adj_lr st3)" "grown a9' (adj_9 st3)"
        by (simp_all add: post_def st2 N)
      from Cons.prems(3) chk \<open>okc\<close> bt False have have_key: "sid \<in> fst ` set (assignments st3)"
        by (auto simp: st2_def split: if_splits)
      define st4 where "st4 = st3\<lparr>assignments := AList.delete sid (assignments st3)\<rparr>"
      have st4: "assignments st4 = AList.delete sid (assignments st3)"
        "adj_lr st4 = adj_lr st3" "adj_9 st4 = adj_9 st3"
        by (simp_all add: st4_def)
      from Cons.prems(3) chk \<open>okc\<close> bt False have_key
      have t: "try_seats ss seats cs strict sid rest others st4 = Inr (ok, st')"
        by (simp add: st2_def st4_def)
      have N3: "neighbours (adj_lr st3) = neighbours (adj_lr st)"
        "neighbours (adj_9 st3) = neighbours (adj_9 st)"
        using g3 N by (auto simp: grown_neighbours fun_eq_iff)
      have sub4: "set (assignments st4) \<subseteq> set ?a"
        using sub3 d by (auto simp: st4 set_delete set_update_distinct)
      have keep4: "fst ` set ?a - set (sid # rest) \<subseteq> fst ` set (assignments st4)"
      proof
        fix k assume k: "k \<in> fst ` set ?a - set (sid # rest)"
        then have "k \<in> fst ` set (assignments st2) - set rest" by (simp add: keys2)
        with keep3 have "k \<in> fst ` set (assignments st3)" by blast
        then obtain v where "(k, v) \<in> set (assignments st3)" by auto
        with k have "(k, v) \<in> set (AList.delete sid (assignments st3))"
          by (simp add: set_delete)
        then show "k \<in> fst ` set (assignments st4)" by (force simp: st4)
      qed
      have p4: "post seats cs strict (sid # rest) st4 ok st'"
      proof (rule Cons.IH [OF _ _ t])
        show "inv seats cs strict (neighbours (adj_lr st4)) (neighbours (adj_9 st4)) (assignments st4)"
          using i3 by (simp add: st4 N3 inv_delete)
        show "c \<notin> snd ` set (assignments st4) \<and> placed_ok seats cs sid c" if "c \<in> set others" for c
          using Cons.prems(2) [of c] that sub4 by auto
      qed
      from p4 have g4': "grown (adj_lr st3) (adj_lr st')" "grown (adj_9 st3) (adj_9 st')"
        by (simp_all add: post_def st4)
      have g4: "grown (adj_lr st) (adj_lr st')" "grown (adj_9 st) (adj_9 st')"
        using g(1) g3(1) g4'(1) g(2) g3(2) g4'(2) by (metis grown_trans)+
      have i': "inv seats cs strict (neighbours (adj_lr st)) (neighbours (adj_9 st)) (assignments st')"
        using p4 by (simp add: post_def st4 N3)
      have sub4k: "fst ` set (assignments st4) \<subseteq> fst ` set ?a"
        using sub4 by auto
      show ?thesis
      proof (cases ok)
        case True
        with p4 have "fst ` set (assignments st') = fst ` set (assignments st4) \<union> set (sid # rest)"
          by (simp add: post_def)
        then have "fst ` set (assignments st') = fst ` set ?a \<union> set (sid # rest)"
          using keep4 sub4k by (rule keys_union_eq)
        with True g4 i' show ?thesis by (simp add: post_def)
      next
        case False
        with p4 have s': "set (assignments st') \<subseteq> set (assignments st4)"
          and k': "fst ` set (assignments st4) - set (sid # rest) \<subseteq> fst ` set (assignments st')"
          by (simp_all add: post_def)
        from s' sub4 have "set (assignments st') \<subseteq> set ?a"
          by (rule subset_trans)
        moreover from k' keep4
        have "fst ` set ?a - set (sid # rest) \<subseteq> fst ` set (assignments st')"
          by (rule keys_diff_sub)
        ultimately have "set (assignments st') \<subseteq> set ?a"
          and "fst ` set ?a - set (sid # rest) \<subseteq> fst ` set (assignments st')"
          by simp_all
        with False g4 i' show ?thesis by (simp add: post_def)
      qed
    qed
  qed
qed

lemma backtrack_post:
  "inv seats cs strict (neighbours (adj_lr st)) (neighbours (adj_9 st)) (assignments st) \<Longrightarrow>
   backtrack ss seats cs strict studs st = Inr (ok, st') \<Longrightarrow>
   post seats cs strict studs st ok st'"
proof (induction studs arbitrary: st ok st')
  case Nil
  then show ?case by (auto simp: post_def grown_refl)
next
  case (Cons sid rest)
  define sh where "sh = shuffle (candidate_seats seats (assignments st) (cs sid)) (rng_state st)"
  define st0 where "st0 = st\<lparr>rng_state := snd sh\<rparr>"
  have st0: "assignments st0 = assignments st" "adj_lr st0 = adj_lr st" "adj_9 st0 = adj_9 st"
    by (simp_all add: st0_def)
  from Cons.prems(2) have t: "try_seats ss seats cs strict sid rest (fst sh) st0 = Inr (ok, st')"
    by (simp add: Let_def sh_def st0_def)
  have "post seats cs strict (sid # rest) st0 ok st'"
  proof (rule try_seats_post [OF _ _ _ t])
    show "post seats cs strict rest s k s'"
      if "inv seats cs strict (neighbours (adj_lr s)) (neighbours (adj_9 s)) (assignments s)"
        and "backtrack ss seats cs strict rest s = Inr (k, s')" for s k s'
      using that by (rule Cons.IH)
    show "inv seats cs strict (neighbours (adj_lr st0)) (neighbours (adj_9 st0)) (assignments st0)"
      using Cons.prems(1) by (simp add: st0)
    show "c \<notin> snd ` set (assignments st0) \<and> placed_ok seats cs sid c" if "c \<in> set (fst sh)" for c
      using that candidate_seats_mem [of c seats "assignments st" cs sid]
      by (simp add: sh_def set_shuffle st0)
  qed
  then show ?case
    by (rule post_same_assignments) (simp_all add: st0 grown_refl)
qed

section \<open>Claims about \<open>build_adjacency_maps\<close>\<close>

text \<open>
  Claim C5. For every list of seats, seat id \<open>y\<close> is in \<open>adjacent_lr[x]\<close> of
  \<open>build_adjacency_maps\<close> exactly when \<open>x\<close> and \<open>y\<close> are the ids of two seats of the
  list with different ids, row distance 0 and column distance 1; and \<open>y\<close> is in
  \<open>adjacent_9[x]\<close> exactly when they are the ids of two seats with different ids, row
  distance at most 1 and column distance at most 1.
\<close>

theorem build_adjacency_maps_exact:
  "(y \<in> neighbours (fst (build_adjacency_maps seats)) x \<longleftrightarrow>
      (\<exists>s1 s2. s1 \<in> set seats \<and> s2 \<in> set seats \<and> id_Seat s1 = x \<and> id_Seat s2 = y \<and>
         x \<noteq> y \<and> \<bar>row s1 - row s2\<bar> = 0 \<and> \<bar>col s1 - col s2\<bar> = 1)) \<and>
   (y \<in> neighbours (snd (build_adjacency_maps seats)) x \<longleftrightarrow>
      (\<exists>s1 s2. s1 \<in> set seats \<and> s2 \<in> set seats \<and> id_Seat s1 = x \<and> id_Seat s2 = y \<and>
         x \<noteq> y \<and> \<bar>row s1 - row s2\<bar> \<le> 1 \<and> \<bar>col s1 - col s2\<bar> \<le> 1))"
proof
  show "y \<in> neighbours (fst (build_adjacency_maps seats)) x \<longleftrightarrow>
      (\<exists>s1 s2. s1 \<in> set seats \<and> s2 \<in> set seats \<and> id_Seat s1 = x \<and> id_Seat s2 = y \<and>
         x \<noteq> y \<and> \<bar>row s1 - row s2\<bar> = 0 \<and> \<bar>col s1 - col s2\<bar> = 1)"
    unfolding neighbours_build_lr lr_pair_def by blast
next
  show "y \<in> neighbours (snd (build_adjacency_maps seats)) x \<longleftrightarrow>
      (\<exists>s1 s2. s1 \<in> set seats \<and> s2 \<in> set seats \<and> id_Seat s1 = x \<and> id_Seat s2 = y \<and>
         x \<noteq> y \<and> \<bar>row s1 - row s2\<bar> \<le> 1 \<and> \<bar>col s1 - col s2\<bar> \<le> 1)"
    unfolding neighbours_build_box box_pair_def by blast
qed

text \<open>
  Claim C6. For every layout, both relations of \<open>build_adjacency_maps\<close> are symmetric and
  irreflexive. Unique seat ids are not needed for it.
\<close>

theorem adjacency_symmetric_irreflexive:
  "(y \<in> neighbours (fst (build_adjacency_maps seats)) x \<longleftrightarrow>
      x \<in> neighbours (fst (build_adjacency_maps seats)) y) \<and>
   x \<notin> neighbours (fst (build_adjacency_maps seats)) x \<and>
   (y \<in> neighbours (snd (build_adjacency_maps seats)) x \<longleftrightarrow>
      x \<in> neighbours (snd (build_adjacency_maps seats)) y) \<and>
   x \<notin> neighbours (snd (build_adjacency_maps seats)) x"
proof (intro conjI)
  show "y \<in> neighbours (fst (build_adjacency_maps seats)) x \<longleftrightarrow>
      x \<in> neighbours (fst (build_adjacency_maps seats)) y"
    unfolding neighbours_build_lr using lr_pair_sym by blast
  show "x \<notin> neighbours (fst (build_adjacency_maps seats)) x"
    unfolding neighbours_build_lr by (auto simp: lr_pair_def)
  show "y \<in> neighbours (snd (build_adjacency_maps seats)) x \<longleftrightarrow>
      x \<in> neighbours (snd (build_adjacency_maps seats)) y"
    unfolding neighbours_build_box using box_pair_sym by blast
  show "x \<notin> neighbours (snd (build_adjacency_maps seats)) x"
    unfolding neighbours_build_box by (auto simp: box_pair_def)
qed

section \<open>Auxiliary facts for the claims about the solver and the checker\<close>

lemma inv_Nil: "inv seats cs strict Nlr N9 []"
  by (simp add: inv_def)

lemma solve_one_assignment_Some:
  assumes "solve_one_assignment ss students seats cs lr a9 strict g = Inr (Some result, st')"
  shows "inv seats cs strict (neighbours lr) (neighbours a9) result"
    and "fst ` set result = set students"
    and "grown lr (adj_lr st')" and "grown a9 (adj_9 st')"
proof -
  let ?st = "\<lparr>assignments = [], rng_state = g, adj_lr = lr, adj_9 = a9\<rparr>"
  from assms have bt: "backtrack ss seats cs strict (students_sorted cs students) ?st = Inr (True, st')"
    and r: "result = assignments st'"
    by (auto simp: solve_one_assignment_def split: sum.splits if_splits)
  have "post seats cs strict (students_sorted cs students) ?st True st'"
    by (rule backtrack_post [OF _ bt]) (simp add: inv_Nil)
  then show "inv seats cs strict (neighbours lr) (neighbours a9) result"
    and "fst ` set result = set students"
    and "grown lr (adj_lr st')" and "grown a9 (adj_9 st')"
    by (simp_all add: post_def r students_sorted_def)
qed

lemma solve_row3_result: "result_of (solve_one_assignment (init_session_state fresh_session seats_row3) [1, 2, 3] seats_row3 cs_row3
       (fst (build_adjacency_maps seats_row3)) (snd (build_adjacency_maps seats_row3)) True [])
     = Inr (Some [(2, 3), (3, 2), (1, 1)])"
  by code_simp

lemma result_of_Some:
  "result_of r = Inr (Some a) \<Longrightarrow> \<exists>st'. r = Inr (Some a, st')"
  by (auto simp: result_of_def split: sum.splits)

lemma sym_adj_build:
  "sym_adj (fst (build_adjacency_maps seats))" "sym_adj (snd (build_adjacency_maps seats))"
  unfolding sym_adj_def neighbours_build_lr neighbours_build_box
  using lr_pair_sym box_pair_sym by blast+

lemma verdict_Inr: "verdict r = Inr ok \<Longrightarrow> \<exists>lr' a9'. r = Inr (ok, lr', a9')"
  by (auto simp: verdict_def split: sum.splits)

lemma grown_entries:
  assumes "grown d d'"
  shows "default_set d' = default_set d"
    and "entries d k = Some v \<Longrightarrow> entries d' k = Some v"
    and "entries d k = None \<Longrightarrow> entries d' k = None \<or> (default_set d \<and> entries d' k = Some {})"
  using assms unfolding grown_def by (metis option.distinct(1))+

lemma constraint_score_closed:
  "constraint_score cs sid =
     (case cs sid of
        None \<Rightarrow> 0
      | Some sc \<Rightarrow>
          (if allowed_rows sc \<noteq> None \<and> allowed_rows sc \<noteq> Some {} then 2 else 0) +
          (if allowed_cols sc \<noteq> None \<and> allowed_cols sc \<noteq> Some {} then 2 else 0) +
          3 * int (length (must_be_adjacent_to sc)) + 3 * int (length (must_not_adjacent_to sc)))"
  by (auto simp: constraint_score_def truthy_def Let_def split: option.splits)

lemma students_sorted_desc:
  assumes "i < length (students_sorted cs students)" "j < length (students_sorted cs students)"
    and "constraint_score cs (students_sorted cs students ! j)
           < constraint_score cs (students_sorted cs students ! i)"
  shows "i < j"
proof (rule ccontr)
  assume "\<not> i < j"
  then have ji: "j \<le> i" by simp
  let ?xs = "students_sorted cs students"
  have "sorted (map (\<lambda>sid. - constraint_score cs sid) ?xs)"
    by (simp add: students_sorted_def sorted_sort_key)
  moreover have "i < length (map (\<lambda>sid. - constraint_score cs sid) ?xs)"
    using assms(1) by simp
  ultimately have "map (\<lambda>sid. - constraint_score cs sid) ?xs ! j
      \<le> map (\<lambda>sid. - constraint_score cs sid) ?xs ! i"
    using ji by (blast intro: sorted_nth_mono)
  with assms ji show False by simp
qed

section \<open>Claims about \<open>solve_one_assignment\<close>\<close>

text \<open>
  Claim C1. Whenever \<open>solve_one_assignment\<close> returns an assignment, the assignment
  satisfies every declared constraint. The parameters \<open>adjacent_lr\<close> and \<open>adjacent_9\<close>
  are symmetric maps, as the data model requires and as those of \<open>build_adjacency_maps\<close>
  are. Then: every placed student sits on a seat of the layout whose row is in its
  \<open>allowed_rows\<close> and whose column is in its \<open>allowed_cols\<close>, where these are not
  \<open>None\<close>; for two different placed students one of whom requires the other as a
  neighbour, each seat is in \<open>adjacent_lr\<close> of the other, whoever was placed first; for
  two different placed students one of whom forbids the other as a neighbour, neither seat
  is in \<open>adjacent_9\<close> of the other in strict mode, and neither is in \<open>adjacent_lr\<close> of the
  other in relaxed mode.
\<close>

theorem solve_one_assignment_satisfies_constraints:
  assumes s: "solve_one_assignment ss students seats cs lr a9 strict g = Inr (Some result, st')"
    and sym: "sym_adj lr" "sym_adj a9"
  shows
    "(\<forall>s p c. (s, p) \<in> set result \<and> cs s = Some c \<longrightarrow>
        (\<exists>seat. seat \<in> set seats \<and> id_Seat seat = p \<and>
           (\<forall>rs. allowed_rows c = Some rs \<longrightarrow> row seat \<in> rs) \<and>
           (\<forall>cols. allowed_cols c = Some cols \<longrightarrow> col seat \<in> cols))) \<and>
     (\<forall>s1 p1 s2 p2 c.
        (s1, p1) \<in> set result \<and> (s2, p2) \<in> set result \<and> s1 \<noteq> s2 \<and> cs s1 = Some c \<and>
        s2 \<in> set (must_be_adjacent_to c) \<longrightarrow>
        p2 \<in> neighbours lr p1 \<and> p1 \<in> neighbours lr p2) \<and>
     (\<forall>s1 p1 s2 p2 c.
        (s1, p1) \<in> set result \<and> (s2, p2) \<in> set result \<and> s1 \<noteq> s2 \<and> cs s1 = Some c \<and>
        s2 \<in> set (must_not_adjacent_to c) \<longrightarrow>
        (if strict then p2 \<notin> neighbours a9 p1 \<and> p1 \<notin> neighbours a9 p2
         else p2 \<notin> neighbours lr p1 \<and> p1 \<notin> neighbours lr p2))"
proof -
  note i = solve_one_assignment_Some(1) [OF s]
  from i have pos: "\<And>s p. (s, p) \<in> set result \<Longrightarrow> placed_ok seats cs s p"
    and pairs: "\<And>s1 p1 s2 p2. (s1, p1) \<in> set result \<Longrightarrow> (s2, p2) \<in> set result \<Longrightarrow> s1 \<noteq> s2 \<Longrightarrow>
        pair_ok cs strict (neighbours lr) (neighbours a9) s1 p1 s2 p2"
    by (auto simp: inv_def)
  have A: "\<exists>seat. seat \<in> set seats \<and> id_Seat seat = p \<and>
           (\<forall>rs. allowed_rows c = Some rs \<longrightarrow> row seat \<in> rs) \<and>
           (\<forall>cols. allowed_cols c = Some cols \<longrightarrow> col seat \<in> cols)"
    if sp: "(s, p) \<in> set result" and c: "cs s = Some c" for s p c
  proof -
    from pos [OF sp] obtain seat where "seat \<in> set seats" "id_Seat seat = p"
      and "is_seat_allowed_for_student seat (Some c)"
      by (auto simp: placed_ok_def c)
    then show ?thesis
      by (auto simp: is_seat_allowed_for_student_def split: option.splits if_splits)
  qed
  have B: "p2 \<in> neighbours lr p1 \<and> p1 \<in> neighbours lr p2"
    if "(s1, p1) \<in> set result" "(s2, p2) \<in> set result" "s1 \<noteq> s2" "cs s1 = Some c"
      "s2 \<in> set (must_be_adjacent_to c)" for s1 p1 s2 p2 c
    using pairs [OF that(1,2,3)] that(4,5) sym(1) by (auto simp: pair_ok_def sym_adj_def)
  have C: "if strict then p2 \<notin> neighbours a9 p1 \<and> p1 \<notin> neighbours a9 p2
         else p2 \<notin> neighbours lr p1 \<and> p1 \<notin> neighbours lr p2"
    if "(s1, p1) \<in> set result" "(s2, p2) \<in> set result" "s1 \<noteq> s2" "cs s1 = Some c"
      "s2 \<in> set (must_not_adjacent_to c)" for s1 p1 s2 p2 c
    using pairs [OF that(1,2,3)] that(4,5) sym by (auto simp: pair_ok_def sym_adj_def apart_def)
  show ?thesis
    using A B C by blast
qed

theorem solve_one_assignment_satisfies_constraints_witness:
  "\<exists>result st'.
     solve_one_assignment (init_session_state fresh_session seats_row3) [1, 2, 3] seats_row3 cs_row3
       (fst (build_adjacency_maps seats_row3)) (snd (build_adjacency_maps seats_row3)) True []
       = Inr (Some result, st') \<and>
     result = [(2, 3), (3, 2), (1, 1)] \<and>
     sym_adj (fst (build_adjacency_maps seats_row3)) \<and>
     sym_adj (snd (build_adjacency_maps seats_row3)) \<and>
     (\<exists>seat. seat \<in> set seats_row3 \<and> id_Seat seat = 1 \<and> col seat \<in> {1}) \<and>
     3 \<in> neighbours (fst (build_adjacency_maps seats_row3)) 2 \<and>
     2 \<in> neighbours (fst (build_adjacency_maps seats_row3)) 3 \<and>
     1 \<notin> neighbours (snd (build_adjacency_maps seats_row3)) 3 \<and>
     3 \<notin> neighbours (snd (build_adjacency_maps seats_row3)) 1"
proof -
  let ?lr = "fst (build_adjacency_maps seats_row3)" and ?a9 = "snd (build_adjacency_maps seats_row3)"
  obtain st' where s: "solve_one_assignment (init_session_state fresh_session seats_row3) [1, 2, 3] seats_row3 cs_row3
       ?lr ?a9 True [] = Inr (Some [(2, 3), (3, 2), (1, 1)], st')"
    using result_of_Some [OF solve_row3_result] by blast
  note t = solve_one_assignment_satisfies_constraints [OF s sym_adj_build]
  have c1: "cs_row3 1 = Some \<lparr>id_SC = 1, allowed_rows = None, allowed_cols = Some {1},
             must_be_adjacent_to = [], must_not_adjacent_to = []\<rparr>"
    and c2: "cs_row3 2 = Some \<lparr>id_SC = 2, allowed_rows = None, allowed_cols = None,
             must_be_adjacent_to = [], must_not_adjacent_to = [1]\<rparr>"
    and c3: "cs_row3 3 = Some \<lparr>id_SC = 3, allowed_rows = None, allowed_cols = None,
             must_be_adjacent_to = [2], must_not_adjacent_to = []\<rparr>"
    by (simp_all add: cs_row3_def)
  note A = t [THEN conjunct1, rule_format]
    and B = t [THEN conjunct2, THEN conjunct1, rule_format]
    and C = t [THEN conjunct2, THEN conjunct2, rule_format]
  from A [of 1 1] c1 have a: "\<exists>seat. seat \<in> set seats_row3 \<and> id_Seat seat = 1 \<and> col seat \<in> {1}"
    by simp
  from B [of 3 2 2 3] c3 have b: "3 \<in> neighbours ?lr 2 \<and> 2 \<in> neighbours ?lr 3" by simp
  from C [of 2 3 1 1] c2 have c: "1 \<notin> neighbours ?a9 3 \<and> 3 \<notin> neighbours ?a9 1" by simp
  from s a b c sym_adj_build [of seats_row3] show ?thesis by simp
qed

text \<open>
  Claim C2. Whenever \<open>solve_one_assignment\<close> returns a mapping, no seat id occurs twice
  in it, and its keys (each occurring once) are exactly the students passed in.
\<close>

theorem solve_one_assignment_injective:
  assumes "solve_one_assignment ss students seats cs lr a9 strict g = Inr (Some result, st')"
  shows "distinct (map fst result) \<and> distinct (map snd result) \<and> fst ` set result = set students"
  using solve_one_assignment_Some(1,2) [OF assms] by (simp add: inv_def)

theorem solve_one_assignment_injective_witness:
  "\<exists>result st'.
     solve_one_assignment (init_session_state fresh_session seats_row3) [1, 2, 3] seats_row3 cs_row3
       (fst (build_adjacency_maps seats_row3)) (snd (build_adjacency_maps seats_row3)) True []
       = Inr (Some result, st') \<and>
     result = [(2, 3), (3, 2), (1, 1)] \<and>
     distinct (map fst result) \<and> distinct (map snd result) \<and> fst ` set result = {1, 2, 3}"
proof -
  obtain st' where s: "solve_one_assignment (init_session_state fresh_session seats_row3) [1, 2, 3] seats_row3 cs_row3
       (fst (build_adjacency_maps seats_row3)) (snd (build_adjacency_maps seats_row3)) True []
       = Inr (Some [(2, 3), (3, 2), (1, 1)], st')"
    using result_of_Some [OF solve_row3_result] by blast
  from solve_one_assignment_injective [OF s] s show ?thesis by auto
qed

text \<open>
  Claim C7, as the code has it. The score adds 2 for \<open>allowed_rows\<close> only when that set
  is present and not empty, likewise for \<open>allowed_cols\<close>, and 3 per entry of each
  relational set; it is the score of the specification for every student without a
  present-but-empty allowed set. \<open>students_sorted\<close>, the order in which \<open>backtrack\<close> places
  the students, is a rearrangement of the students in which a student with a strictly
  greater score stands before one with a smaller score.
\<close>

theorem constraint_score_order:
  "constraint_score cs sid =
     (case cs sid of
        None \<Rightarrow> 0
      | Some sc \<Rightarrow>
          (if allowed_rows sc \<noteq> None \<and> allowed_rows sc \<noteq> Some {} then 2 else 0) +
          (if allowed_cols sc \<noteq> None \<and> allowed_cols sc \<noteq> Some {} then 2 else 0) +
          3 * int (length (must_be_adjacent_to sc)) + 3 * int (length (must_not_adjacent_to sc))) \<and>
   ((\<forall>sc. cs sid = Some sc \<longrightarrow> allowed_rows sc \<noteq> Some {} \<and> allowed_cols sc \<noteq> Some {}) \<longrightarrow>
      constraint_score cs sid = spec_score cs sid) \<and>
   mset (students_sorted cs students) = mset students \<and>
   (\<forall>i j. i < length (students_sorted cs students) \<and> j < length (students_sorted cs students) \<and>
      constraint_score cs (students_sorted cs students ! j)
        < constraint_score cs (students_sorted cs students ! i) \<longrightarrow> i < j)"
proof (intro conjI)
  show "constraint_score cs sid =
     (case cs sid of
        None \<Rightarrow> 0
      | Some sc \<Rightarrow>
          (if allowed_rows sc \<noteq> None \<and> allowed_rows sc \<noteq> Some {} then 2 else 0) +
          (if allowed_cols sc \<noteq> None \<and> allowed_cols sc \<noteq> Some {} then 2 else 0) +
          3 * int (length (must_be_adjacent_to sc)) + 3 * int (length (must_not_adjacent_to sc)))"
    by (rule constraint_score_closed)
  show "(\<forall>sc. cs sid = Some sc \<longrightarrow> allowed_rows sc \<noteq> Some {} \<and> allowed_cols sc \<noteq> Some {}) \<longrightarrow>
      constraint_score cs sid = spec_score cs sid"
    by (auto simp: constraint_score_closed spec_score_def split: option.splits)
  show "mset (students_sorted cs students) = mset students"
    by (simp add: students_sorted_def)
  show "\<forall>i j. i < length (students_sorted cs students) \<and> j < length (students_sorted cs students) \<and>
      constraint_score cs (students_sorted cs students ! j)
        < constraint_score cs (students_sorted cs students ! i) \<longrightarrow> i < j"
    using students_sorted_desc by blast
qed

theorem constraint_score_order_witness:
  "constraint_score cs_row3 1 = 2 \<and> constraint_score cs_row3 2 = 3 \<and>
   constraint_score cs_row3 1 = spec_score cs_row3 1 \<and>
   students_sorted cs_row3 [1, 2, 3] = [2, 3, 1] \<and>
   mset (students_sorted cs_row3 [1, 2, 3]) = mset [1, 2, 3] \<and>
   constraint_score cs_row3 (students_sorted cs_row3 [1, 2, 3] ! 2)
     < constraint_score cs_row3 (students_sorted cs_row3 [1, 2, 3] ! 0) \<and> (0::nat) < 2"
proof -
  have e: "constraint_score cs_row3 1 = 2" "constraint_score cs_row3 2 = 3"
    "students_sorted cs_row3 [1, 2, 3] = [2, 3, 1]"
    by code_simp+
  have a: "\<forall>sc. cs_row3 1 = Some sc \<longrightarrow> allowed_rows sc \<noteq> Some {} \<and> allowed_cols sc \<noteq> Some {}"
    by (simp add: cs_row3_def)
  note t = constraint_score_order [of cs_row3 1 "[1, 2, 3]"]
  from t a have "constraint_score cs_row3 1 = spec_score cs_row3 1" by blast
  moreover from t have "mset (students_sorted cs_row3 [1, 2, 3]) = mset [1, 2, 3]" by blast
  moreover have lt: "constraint_score cs_row3 (students_sorted cs_row3 [1, 2, 3] ! 2)
     < constraint_score cs_row3 (students_sorted cs_row3 [1, 2, 3] ! 0)"
    by (simp add: e)
  moreover from t lt have "(0::nat) < 2" by simp
  ultimately show ?thesis using e by simp
qed

text \<open>
  Claim C7 as stated fails: student 1 has a present, empty \<open>allowed_rows\<close>, so the stated
  score is 2 for student 1 and 0 for student 2; the code scores both 0 and tries student 2
  first.
\<close>

theorem constraint_score_counterexample:
  "constraint_score cs_empty_rows 1 = 0 \<and> spec_score cs_empty_rows 1 = 2 \<and>
   spec_score cs_empty_rows 2 = 0 \<and> students_sorted cs_empty_rows [2, 1] = [2, 1]"
  by code_simp

section \<open>Claims about \<open>check_partial_constraints\<close>\<close>

lemma check_far2_verdict:
  "verdict (check_partial_constraints (init_session_state fresh_session seats_far2) [(1, 1)] 2 2 cs_pair
      (fst (build_adjacency_maps seats_far2)) (snd (build_adjacency_maps seats_far2)) True)
     = Inr False"
  by code_simp

text \<open>
  Claim C8, as the code has it. The dictionary \<open>assignments\<close> and the constraints are only
  read (the model takes them as values and returns neither). Every lookup in the two
  adjacency maps gives the same set after the call as before, entries that exist stay as
  they are, and a plain \<open>dict\<close> is unchanged; but on a \<open>defaultdict(set)\<close>, as
  \<open>build_adjacency_maps\<close> creates them, the call may add keys, each with the empty set.
\<close>

theorem check_partial_constraints_frame:
  assumes "check_partial_constraints ss a student_id seat_id cs lr a9 strict = Inr (ok, lr', a9')"
  shows "neighbours lr' = neighbours lr \<and> neighbours a9' = neighbours a9 \<and>
     default_set lr' = default_set lr \<and> default_set a9' = default_set a9 \<and>
     (\<forall>k v. entries lr k = Some v \<longrightarrow> entries lr' k = Some v) \<and>
     (\<forall>k v. entries a9 k = Some v \<longrightarrow> entries a9' k = Some v) \<and>
     (\<forall>k. entries lr k = None \<longrightarrow>
          entries lr' k = None \<or> (default_set lr \<and> entries lr' k = Some {})) \<and>
     (\<forall>k. entries a9 k = None \<longrightarrow>
          entries a9' k = None \<or> (default_set a9 \<and> entries a9' k = Some {})) \<and>
     (\<not> default_set lr \<longrightarrow> lr' = lr) \<and> (\<not> default_set a9 \<longrightarrow> a9' = a9)"
proof -
  from check_partial_constraints_grown [OF assms]
  have g: "grown lr lr'" "grown a9 a9'" by simp_all
  have "neighbours lr' = neighbours lr" "neighbours a9' = neighbours a9"
    using g by (auto simp: grown_neighbours fun_eq_iff)
  moreover have "\<not> default_set lr \<longrightarrow> lr' = lr" "\<not> default_set a9 \<longrightarrow> a9' = a9"
    using g by (auto dest: grown_plain)
  ultimately show ?thesis
    using grown_entries [OF g(1)] grown_entries [OF g(2)] by blast
qed

theorem check_partial_constraints_frame_witness:
  "\<exists>lr' a9'.
     check_partial_constraints (init_session_state fresh_session seats_far2) [(1, 1)] 2 2 cs_pair
        (fst (build_adjacency_maps seats_far2)) (snd (build_adjacency_maps seats_far2)) True
       = Inr (False, lr', a9') \<and>
     neighbours lr' = neighbours (fst (build_adjacency_maps seats_far2)) \<and>
     neighbours a9' = neighbours (snd (build_adjacency_maps seats_far2)) \<and>
     default_set lr' \<and> default_set a9'"
proof -
  obtain lr' a9' where c:
    "check_partial_constraints (init_session_state fresh_session seats_far2) [(1, 1)] 2 2 cs_pair
        (fst (build_adjacency_maps seats_far2)) (snd (build_adjacency_maps seats_far2)) True
       = Inr (False, lr', a9')"
    using check_far2_verdict verdict_Inr by blast
  have d: "default_set (fst (build_adjacency_maps seats_far2))"
    "default_set (snd (build_adjacency_maps seats_far2))"
    by (simp_all add: build_adjacency_maps_def Let_def)
  from check_partial_constraints_frame [OF c] c d show ?thesis by auto
qed

text \<open>
  Claim C8 as stated fails: with student 1 on seat 1, checking student 2 on seat 2 of the
  two far seats reads \<open>adjacent_lr[2]\<close>, and the map of \<open>build_adjacency_maps\<close>, which had
  no key 2, has it afterwards.
\<close>

theorem check_adds_keys_counterexample:
  "verdict (check_partial_constraints (init_session_state fresh_session seats_far2) [(1, 1)] 2 2 cs_pair
      (fst (build_adjacency_maps seats_far2)) (snd (build_adjacency_maps seats_far2)) True)
     = Inr False \<and>
   map_option (\<lambda>d. entries d 2)
     (lr_after (check_partial_constraints (init_session_state fresh_session seats_far2) [(1, 1)] 2 2 cs_pair
        (fst (build_adjacency_maps seats_far2)) (snd (build_adjacency_maps seats_far2)) True))
     = Some (Some {}) \<and>
   entries (fst (build_adjacency_maps seats_far2)) 2 = None"
  by code_simp

text \<open>
  Claim C9, as the code has it. The partial assignment is an argument, the seat is read
  from the session: the result of the check is a function of the declared arguments and of
  what the session holds under \<open>seat_by_id\<close> for the seat id. Two calls with the same
  arguments, in sessions that agree there, return the same result.
\<close>

theorem check_depends_on_session_seat:
  "session_seat ss1 seat_id = session_seat ss2 seat_id \<Longrightarrow>
   check_partial_constraints ss1 a student_id seat_id cs lr a9 strict =
   check_partial_constraints ss2 a student_id seat_id cs lr a9 strict"
  by (simp add: check_partial_constraints_def)

theorem check_depends_on_session_seat_witness:
  "session_seat (init_session_state fresh_session seats_row3) 3 = session_seat (init_session_state fresh_session seats_moved) 3 \<and>
   check_partial_constraints (init_session_state fresh_session seats_row3) [] 1 3 cs_row3
      (fst (build_adjacency_maps seats_row3)) (snd (build_adjacency_maps seats_row3)) True =
   check_partial_constraints (init_session_state fresh_session seats_moved) [] 1 3 cs_row3
      (fst (build_adjacency_maps seats_row3)) (snd (build_adjacency_maps seats_row3)) True"
proof -
  have h: "session_seat (init_session_state fresh_session seats_row3) 3 = session_seat (init_session_state fresh_session seats_moved) 3"
    by code_simp
  from check_depends_on_session_seat [OF h] h show ?thesis by simp
qed

text \<open>
  Claim C9 as stated fails: the same arguments give \<open>True\<close> in one session, \<open>False\<close> in a
  session that holds another seat under id 1, and \<open>KeyError\<close> in a session without
  \<open>seat_by_id\<close>.
\<close>

theorem check_reads_session_counterexample:
  "verdict (check_partial_constraints (init_session_state fresh_session seats_row3) [] 1 1 cs_row3
      (fst (build_adjacency_maps seats_row3)) (snd (build_adjacency_maps seats_row3)) True)
     = Inr True \<and>
   verdict (check_partial_constraints (init_session_state fresh_session seats_moved) [] 1 1 cs_row3
      (fst (build_adjacency_maps seats_row3)) (snd (build_adjacency_maps seats_row3)) True)
     = Inr False \<and>
   verdict (check_partial_constraints \<lparr>seat_by_id = None\<rparr> [] 1 1 cs_row3
      (fst (build_adjacency_maps seats_row3)) (snd (build_adjacency_maps seats_row3)) True)
     = Inl KeyError"
  by code_simp

section \<open>No exception on well-formed calls\<close>

lemma can_read_grown: "grown d d' \<Longrightarrow> can_read d K \<Longrightarrow> can_read d' K"
  unfolding grown_def can_read_def
  by (metis domIff subsetD subsetI option.distinct(1))

lemma getitem_total: "can_read d K \<Longrightarrow> k \<in> K \<Longrightarrow> \<exists>nb d'. getitem d k = Inr (nb, d')"
  by (auto simp: getitem_def can_read_def split: option.splits)

lemma session_seat_total:
  "session_has ss seats \<Longrightarrow> k \<in> id_Seat ` set seats \<Longrightarrow> \<exists>seat. session_seat ss k = Inr seat"
  by (auto simp: session_has_def session_seat_def split: option.splits)

lemma must_be_loop_total:
  "can_read lr K \<Longrightarrow> seat_id \<in> K \<Longrightarrow> \<exists>ok lr'. must_be_loop xs a seat_id lr = Inr (ok, lr')"
proof (induction xs arbitrary: lr)
  case Nil
  then show ?case by auto
next
  case (Cons other rest)
  show ?case
  proof (cases "map_of a other")
    case None
    with Cons show ?thesis by simp
  next
    case (Some other_seat)
    from getitem_total [OF Cons.prems] obtain nb lr1 where g: "getitem lr seat_id = Inr (nb, lr1)"
      by blast
    then have "grown lr lr1" by (simp add: getitem_grown)
    then have "can_read lr1 K" using Cons.prems(1) by (rule can_read_grown)
    from Cons.IH [OF this Cons.prems(2)] Some g show ?thesis by auto
  qed
qed

lemma must_not_loop_total:
  "can_read lr K \<Longrightarrow> can_read a9 K \<Longrightarrow> seat_id \<in> K \<Longrightarrow>
     \<exists>ok lr' a9'. must_not_loop xs a seat_id strict lr a9 = Inr (ok, lr', a9')"
proof (induction xs arbitrary: lr a9)
  case Nil
  then show ?case by auto
next
  case (Cons other rest)
  show ?case
  proof (cases "map_of a other")
    case None
    with Cons show ?thesis by simp
  next
    case (Some other_seat)
    show ?thesis
    proof (cases strict)
      case True
      from getitem_total [OF Cons.prems(2,3)] obtain nb a91 where
        g: "getitem a9 seat_id = Inr (nb, a91)" by blast
      then have "grown a9 a91" by (simp add: getitem_grown)
      then have "can_read a91 K" using Cons.prems(2) by (rule can_read_grown)
      from Cons.IH [OF Cons.prems(1) this Cons.prems(3)] Some g True show ?thesis by auto
    next
      case False
      from getitem_total [OF Cons.prems(1,3)] obtain nb lr1 where
        g: "getitem lr seat_id = Inr (nb, lr1)" by blast
      then have "grown lr lr1" by (simp add: getitem_grown)
      then have "can_read lr1 K" using Cons.prems(1) by (rule can_read_grown)
      from Cons.IH [OF this Cons.prems(2,3)] Some g False show ?thesis by auto
    qed
  qed
qed

lemma incoming_must_be_total:
  "can_read lr K \<Longrightarrow> seat_id \<in> K \<Longrightarrow>
     \<exists>ok lr'. incoming_must_be osc sid seat_id other_seat lr = Inr (ok, lr')"
  using getitem_total [of lr K seat_id]
  by (auto simp: incoming_must_be_def)

lemma incoming_must_not_total:
  "can_read lr K \<Longrightarrow> can_read a9 K \<Longrightarrow> other_seat \<in> K \<Longrightarrow>
     \<exists>ok lr' a9'. incoming_must_not osc sid seat_id other_seat strict lr a9 = Inr (ok, lr', a9')"
  using getitem_total [of lr K other_seat] getitem_total [of a9 K other_seat]
  by (auto simp: incoming_must_not_def)

lemma reverse_loop_total:
  "can_read lr K \<Longrightarrow> can_read a9 K \<Longrightarrow> seat_id \<in> K \<Longrightarrow> snd ` set a \<subseteq> K \<Longrightarrow>
     \<exists>ok lr' a9'. reverse_loop a sid seat_id cs strict lr a9 = Inr (ok, lr', a9')"
proof (induction a arbitrary: lr a9)
  case Nil
  then show ?case by auto
next
  case (Cons p rest)
  obtain other other_seat where p: "p = (other, other_seat)" by (cases p)
  from Cons.prems(4) p have os: "other_seat \<in> K" and rest: "snd ` set rest \<subseteq> K" by auto
  show ?case
  proof (cases "cs other")
    case None
    with Cons.IH [OF Cons.prems(1,2,3) rest] p show ?thesis by simp
  next
    case (Some osc)
    from incoming_must_be_total [OF Cons.prems(1,3)] obtain ok1 lr1 where
      b: "incoming_must_be osc sid seat_id other_seat lr = Inr (ok1, lr1)" by blast
    from b have "grown lr lr1" by (rule incoming_must_be_grown)
    then have r1: "can_read lr1 K" using Cons.prems(1) by (rule can_read_grown)
    from incoming_must_not_total [OF r1 Cons.prems(2) os] obtain ok2 lr2 a92 where
      n: "incoming_must_not osc sid seat_id other_seat strict lr1 a9 = Inr (ok2, lr2, a92)"
      by blast
    from n have "grown lr1 lr2 \<and> grown a9 a92" by (rule incoming_must_not_grown)
    then have r2: "can_read lr2 K" "can_read a92 K"
      using r1 Cons.prems(2) by (auto intro: can_read_grown)
    from Cons.IH [OF r2 Cons.prems(3) rest] obtain ok3 lr3 a93 where
      "reverse_loop rest sid seat_id cs strict lr2 a92 = Inr (ok3, lr3, a93)" by blast
    with p Some b n show ?thesis by auto
  qed
qed

lemma check_partial_constraints_total:
  assumes s: "session_seat ss seat_id = Inr seat"
    and r: "can_read lr K" "can_read a9 K" and k: "seat_id \<in> K" "snd ` set a \<subseteq> K"
  shows "\<exists>ok lr' a9'. check_partial_constraints ss a sid seat_id cs lr a9 strict = Inr (ok, lr', a9')"
proof -
  define own where "own = (case cs sid of
                     None \<Rightarrow> Inr (True, lr, a9)
                   | Some c \<Rightarrow>
                       (case must_be_loop (must_be_adjacent_to c) a seat_id lr of
                          Inl e \<Rightarrow> Inl e
                        | Inr (ok1, lr1) \<Rightarrow>
                            if \<not> ok1 then Inr (False, lr1, a9)
                            else must_not_loop (must_not_adjacent_to c) a seat_id strict lr1 a9))"
  have "\<exists>ok2 lr2 a92. own = Inr (ok2, lr2, a92) \<and> can_read lr2 K \<and> can_read a92 K"
  proof (cases "cs sid")
    case None
    with r show ?thesis by (auto simp: own_def)
  next
    case (Some c)
    from must_be_loop_total [OF r(1) k(1)] obtain ok1 lr1 where
      b: "must_be_loop (must_be_adjacent_to c) a seat_id lr = Inr (ok1, lr1)" by blast
    from b have "grown lr lr1" by (rule must_be_loop_grown)
    then have r1: "can_read lr1 K" using r(1) by (rule can_read_grown)
    from must_not_loop_total [OF r1 r(2) k(1)] obtain ok2 lr2 a92 where
      n: "must_not_loop (must_not_adjacent_to c) a seat_id strict lr1 a9 = Inr (ok2, lr2, a92)"
      by blast
    from n have "grown lr1 lr2 \<and> grown a9 a92" by (rule must_not_loop_grown)
    then have "can_read lr2 K" "can_read a92 K"
      using r1 r(2) by (auto intro: can_read_grown)
    with Some b n r1 r(2) show ?thesis by (cases ok1) (auto simp: own_def)
  qed
  then obtain ok2 lr2 a92 where o: "own = Inr (ok2, lr2, a92)"
    and r2: "can_read lr2 K" "can_read a92 K" by blast
  from reverse_loop_total [OF r2 k] obtain ok3 lr3 a93 where
    "reverse_loop a sid seat_id cs strict lr2 a92 = Inr (ok3, lr3, a93)" by blast
  with s o show ?thesis
    unfolding check_partial_constraints_def Let_def own_def [symmetric] by auto
qed

lemma inv_values: "inv seats cs strict Nlr N9 a \<Longrightarrow> snd ` set a \<subseteq> id_Seat ` set seats"
  unfolding inv_def placed_ok_def by force

lemma placed_ok_id: "placed_ok seats cs sid c \<Longrightarrow> c \<in> id_Seat ` set seats"
  unfolding placed_ok_def by force

lemma try_seats_total:
  assumes BT: "\<And>st.
      inv seats cs strict (neighbours (adj_lr st)) (neighbours (adj_9 st)) (assignments st) \<Longrightarrow>
      can_read (adj_lr st) (id_Seat ` set seats) \<Longrightarrow> can_read (adj_9 st) (id_Seat ` set seats) \<Longrightarrow>
      \<exists>r. backtrack ss seats cs strict rest st = Inr r"
    and nr: "sid \<notin> set rest"
    and sh: "session_has ss seats"
  shows "inv seats cs strict (neighbours (adj_lr st)) (neighbours (adj_9 st)) (assignments st) \<Longrightarrow>
     can_read (adj_lr st) (id_Seat ` set seats) \<Longrightarrow> can_read (adj_9 st) (id_Seat ` set seats) \<Longrightarrow>
     (\<And>c. c \<in> set cands \<Longrightarrow> c \<notin> snd ` set (assignments st) \<and> placed_ok seats cs sid c) \<Longrightarrow>
     \<exists>r. try_seats ss seats cs strict sid rest cands st = Inr r"
proof (induction cands arbitrary: st)
  case Nil
  then show ?case by auto
next
  case (Cons seat_id others)
  let ?a = "assignments st" and ?K = "id_Seat ` set seats"
  from Cons.prems(4) [of seat_id]
  have free: "seat_id \<notin> snd ` set ?a" and pl: "placed_ok seats cs sid seat_id" by simp_all
  from pl have k: "seat_id \<in> ?K" by (rule placed_ok_id)
  from Cons.prems(1) have vals: "snd ` set ?a \<subseteq> ?K" by (rule inv_values)
  from session_seat_total [OF sh k] obtain seat where s: "session_seat ss seat_id = Inr seat"
    by blast
  from check_partial_constraints_total [OF s Cons.prems(2,3) k vals]
  obtain okc lr' a9' where
    chk: "check_partial_constraints ss ?a sid seat_id cs (adj_lr st) (adj_9 st) strict
            = Inr (okc, lr', a9')"
    by blast
  from check_partial_constraints_grown [OF chk]
  have g: "grown (adj_lr st) lr'" "grown (adj_9 st) a9'" by auto
  then have N: "neighbours lr' = neighbours (adj_lr st)" "neighbours a9' = neighbours (adj_9 st)"
    by (auto simp: grown_neighbours fun_eq_iff)
  from g Cons.prems(2,3) have cr: "can_read lr' ?K" "can_read a9' ?K"
    by (auto intro: can_read_grown)
  show ?case
  proof (cases okc)
    case False
    define st1 where "st1 = st\<lparr>adj_lr := lr', adj_9 := a9'\<rparr>"
    have st1: "assignments st1 = ?a" "adj_lr st1 = lr'" "adj_9 st1 = a9'"
      by (simp_all add: st1_def)
    have "\<exists>r. try_seats ss seats cs strict sid rest others st1 = Inr r"
    proof (rule Cons.IH)
      show "inv seats cs strict (neighbours (adj_lr st1)) (neighbours (adj_9 st1)) (assignments st1)"
        using Cons.prems(1) by (simp add: st1 N)
      show "can_read (adj_lr st1) ?K" "can_read (adj_9 st1) ?K" using cr by (simp_all add: st1)
      show "c \<notin> snd ` set (assignments st1) \<and> placed_ok seats cs sid c" if "c \<in> set others" for c
        using Cons.prems(4) [of c] that by (simp add: st1)
    qed
    with chk False show ?thesis by (simp add: st1_def)
  next
    case True
    define st2 where "st2 = st\<lparr>adj_lr := lr', adj_9 := a9',
                        assignments := AList.update sid seat_id ?a\<rparr>"
    have st2: "assignments st2 = AList.update sid seat_id ?a" "adj_lr st2 = lr'" "adj_9 st2 = a9'"
      by (simp_all add: st2_def)
    have i2: "inv seats cs strict (neighbours (adj_lr st2)) (neighbours (adj_9 st2)) (assignments st2)"
      using inv_update [OF Cons.prems(1) _ free pl] chk True by (simp add: st2 N)
    from BT [OF i2] cr obtain found st3 where
      bt: "backtrack ss seats cs strict rest st2 = Inr (found, st3)"
      by (auto simp: st2)
    have p3: "post seats cs strict rest st2 found st3"
      using i2 bt by (rule backtrack_post)
    show ?thesis
    proof (cases found)
      case True
      with chk \<open>okc\<close> bt show ?thesis by (auto simp: st2_def)
    next
      case False
      from Cons.prems(1) have d: "distinct (map fst ?a)" by (simp add: inv_def)
      from p3 False have sub3: "set (assignments st3) \<subseteq> set (AList.update sid seat_id ?a)"
        and keep3: "fst ` set (assignments st2) - set rest \<subseteq> fst ` set (assignments st3)"
        and i3: "inv seats cs strict (neighbours (adj_lr st)) (neighbours (adj_9 st)) (assignments st3)"
        and g3: "grown lr' (adj_lr st3)" "grown a9' (adj_9 st3)"
        by (simp_all add: post_def st2 N)
      have "sid \<in> fst ` set (assignments st2)" by (simp add: st2 AList.dom_update)
      with keep3 nr have have_key: "sid \<in> fst ` set (assignments st3)" by blast
      define st4 where "st4 = st3\<lparr>assignments := AList.delete sid (assignments st3)\<rparr>"
      have st4: "assignments st4 = AList.delete sid (assignments st3)"
        "adj_lr st4 = adj_lr st3" "adj_9 st4 = adj_9 st3"
        by (simp_all add: st4_def)
      have N3: "neighbours (adj_lr st3) = neighbours (adj_lr st)"
        "neighbours (adj_9 st3) = neighbours (adj_9 st)"
        using g3 N by (auto simp: grown_neighbours fun_eq_iff)
      have sub4: "set (assignments st4) \<subseteq> set ?a"
        using sub3 d by (auto simp: st4 set_delete set_update_distinct)
      have "\<exists>r. try_seats ss seats cs strict sid rest others st4 = Inr r"
      proof (rule Cons.IH)
        show "inv seats cs strict (neighbours (adj_lr st4)) (neighbours (adj_9 st4)) (assignments st4)"
          using i3 by (simp add: st4 N3 inv_delete)
        show "can_read (adj_lr st4) ?K" "can_read (adj_9 st4) ?K"
          using cr g3 by (auto simp: st4 intro: can_read_grown)
        show "c \<notin> snd ` set (assignments st4) \<and> placed_ok seats cs sid c" if "c \<in> set others" for c
          using Cons.prems(4) [of c] that sub4 by auto
      qed
      with chk \<open>okc\<close> bt False have_key show ?thesis by (simp add: st2_def st4_def)
    qed
  qed
qed

lemma backtrack_total:
  "distinct studs \<Longrightarrow> session_has ss seats \<Longrightarrow>
   inv seats cs strict (neighbours (adj_lr st)) (neighbours (adj_9 st)) (assignments st) \<Longrightarrow>
   can_read (adj_lr st) (id_Seat ` set seats) \<Longrightarrow> can_read (adj_9 st) (id_Seat ` set seats) \<Longrightarrow>
   \<exists>r. backtrack ss seats cs strict studs st = Inr r"
proof (induction studs arbitrary: st)
  case Nil
  then show ?case by auto
next
  case (Cons sid rest)
  define sh where "sh = shuffle (candidate_seats seats (assignments st) (cs sid)) (rng_state st)"
  define st0 where "st0 = st\<lparr>rng_state := snd sh\<rparr>"
  have st0: "assignments st0 = assignments st" "adj_lr st0 = adj_lr st" "adj_9 st0 = adj_9 st"
    by (simp_all add: st0_def)
  from Cons.prems(1) have nr: "sid \<notin> set rest" and dr: "distinct rest" by simp_all
  have "\<exists>r. try_seats ss seats cs strict sid rest (fst sh) st0 = Inr r"
  proof (rule try_seats_total [OF _ nr Cons.prems(2)])
    show "\<exists>r. backtrack ss seats cs strict rest s = Inr r"
      if "inv seats cs strict (neighbours (adj_lr s)) (neighbours (adj_9 s)) (assignments s)"
        and "can_read (adj_lr s) (id_Seat ` set seats)" and "can_read (adj_9 s) (id_Seat ` set seats)"
      for s
      using dr Cons.prems(2) that by (rule Cons.IH)
    show "inv seats cs strict (neighbours (adj_lr st0)) (neighbours (adj_9 st0)) (assignments st0)"
      using Cons.prems(3) by (simp add: st0)
    show "can_read (adj_lr st0) (id_Seat ` set seats)" "can_read (adj_9 st0) (id_Seat ` set seats)"
      using Cons.prems(4,5) by (simp_all add: st0)
    show "c \<notin> snd ` set (assignments st0) \<and> placed_ok seats cs sid c" if "c \<in> set (fst sh)" for c
      using that candidate_seats_mem [of c seats "assignments st" cs sid]
      by (simp add: sh_def set_shuffle st0)
  qed
  then show ?case by (simp add: Let_def sh_def st0_def)
qed

lemma solve_one_assignment_grown:
  assumes "solve_one_assignment ss students seats cs lr a9 strict g = Inr (r, st')"
  shows "grown lr (adj_lr st')" and "grown a9 (adj_9 st')"
proof -
  let ?st = "\<lparr>assignments = [], rng_state = g, adj_lr = lr, adj_9 = a9\<rparr>"
  from assms obtain ok where
    bt: "backtrack ss seats cs strict (students_sorted cs students) ?st = Inr (ok, st')"
    by (auto simp: solve_one_assignment_def split: sum.splits)
  have "post seats cs strict (students_sorted cs students) ?st ok st'"
    by (rule backtrack_post [OF _ bt]) (simp add: inv_Nil)
  then show "grown lr (adj_lr st')" and "grown a9 (adj_9 st')"
    by (simp_all add: post_def)
qed

lemma solve_one_assignment_total:
  assumes "distinct students" "session_has ss seats"
    and "can_read lr (id_Seat ` set seats)" "can_read a9 (id_Seat ` set seats)"
  shows "\<exists>r st'. solve_one_assignment ss students seats cs lr a9 strict g = Inr (r, st')"
proof -
  let ?st = "\<lparr>assignments = [], rng_state = g, adj_lr = lr, adj_9 = a9\<rparr>"
  have "distinct (students_sorted cs students)"
    using assms(1) by (simp add: students_sorted_def)
  from backtrack_total [OF this assms(2), of cs strict ?st] assms(3,4)
  obtain ok st' where "backtrack ss seats cs strict (students_sorted cs students) ?st = Inr (ok, st')"
    by (auto simp: inv_Nil)
  then show ?thesis by (simp add: solve_one_assignment_def)
qed

section \<open>The loop of \<open>generate_multiple_layouts\<close>\<close>

lemma gen_step_props:
  assumes "gen_step ss seats cs strict s = Inr s'"
  shows "attempts s' = attempts s + 1"
    and "mset (students_arg s') = mset (students_arg s)"
    and "gen_inv s \<Longrightarrow> gen_inv s'"
    and "length (layouts s') = length (layouts s) \<or> length (layouts s') = Suc (length (layouts s))"
    and "grown (gen_lr s) (gen_lr s')" and "grown (gen_9 s) (gen_9 s')"
proof -
  define sh where "sh = shuffle (students_arg s) (gen_rng s)"
  from assms obtain result st where
    sv: "solve_one_assignment ss (fst sh) seats cs (gen_lr s) (gen_9 s) strict (snd sh) = Inr (result, st)"
    by (auto simp: gen_step_def Let_def sh_def split: sum.splits)
  define s2 where "s2 = s\<lparr>attempts := attempts s + 1, students_arg := fst sh,
      gen_rng := rng_state st, gen_lr := adj_lr st, gen_9 := adj_9 st\<rparr>"
  from assms sv have s': "s' = s2 \<or>
      (\<exists>r. result = Some r \<and> canonical r \<notin> seen s \<and>
           s' = s2\<lparr>seen := insert (canonical r) (seen s), layouts := layouts s @ [r]\<rparr>)"
    by (auto simp: gen_step_def Let_def sh_def s2_def split: option.splits if_splits)
  have m: "mset (fst sh) = mset (students_arg s)" by (simp add: sh_def mset_shuffle)
  note g = solve_one_assignment_grown [OF sv]
  from s' show "attempts s' = attempts s + 1" by (auto simp: s2_def)
  from s' m show "mset (students_arg s') = mset (students_arg s)" by (auto simp: s2_def)
  from s' show "length (layouts s') = length (layouts s) \<or> length (layouts s') = Suc (length (layouts s))"
    by (auto simp: s2_def)
  from s' g show "grown (gen_lr s) (gen_lr s')" and "grown (gen_9 s) (gen_9 s')"
    by (auto simp: s2_def)
  show "gen_inv s'" if "gen_inv s"
    using s' that by (auto simp: s2_def gen_inv_def)
qed

lemma gen_step_duplicate:
  assumes "solve_one_assignment ss (fst (shuffle (students_arg s) (gen_rng s))) seats cs
             (gen_lr s) (gen_9 s) strict (snd (shuffle (students_arg s) (gen_rng s)))
           = Inr (Some r, st)"
    and "canonical r \<in> seen s"
  shows "\<exists>s'. gen_step ss seats cs strict s = Inr s' \<and> layouts s' = layouts s \<and>
           seen s' = seen s \<and> attempts s' = attempts s + 1"
  using assms by (simp add: gen_step_def Let_def)

lemma gen_loop_props:
  "gen_loop ss num mx seats cs strict s = Inr s' \<Longrightarrow> gen_inv s \<Longrightarrow>
     gen_inv s' \<and> mset (students_arg s') = mset (students_arg s) \<and>
     \<not> (int (length (layouts s')) < num \<and> attempts s' < mx) \<and>
     int (length (layouts s')) \<le> max (int (length (layouts s))) num \<and>
     attempts s' \<le> max (attempts s) mx \<and>
     (\<exists>n. gen_iter n ss seats cs strict s = Inr s' \<and> attempts s' = attempts s + int n \<and>
          (\<forall>k<n. \<exists>sk. gen_iter k ss seats cs strict s = Inr sk \<and>
                     int (length (layouts sk)) < num \<and> attempts sk < mx))"
proof (induction ss num mx seats cs strict s rule: gen_loop.induct)
  case (1 ss num mx seats cs strict s)
  show ?case
  proof (cases "int (length (layouts s)) < num \<and> attempts s < mx")
    case False
    with "1.prems" have "s' = s" by (simp add: gen_loop.simps [of ss num mx seats cs strict s])
    moreover have "gen_iter 0 ss seats cs strict s = Inr s" by simp
    ultimately show ?thesis using False "1.prems"(2)
      by (intro conjI exI [of _ 0]) auto
  next
    case True
    with "1.prems"(1) obtain s1 where st: "gen_step ss seats cs strict s = Inr s1"
      and lp: "gen_loop ss num mx seats cs strict s1 = Inr s'"
      by (auto simp: gen_loop.simps [of ss num mx seats cs strict s] split: sum.splits)
    note p = gen_step_props [OF st]
    from p(3) [OF "1.prems"(2)] have i1: "gen_inv s1" .
    from "1.IH" [OF True st lp i1] obtain n where
      a: "gen_inv s'" "mset (students_arg s') = mset (students_arg s1)"
        "\<not> (int (length (layouts s')) < num \<and> attempts s' < mx)"
        "int (length (layouts s')) \<le> max (int (length (layouts s1))) num"
        "attempts s' \<le> max (attempts s1) mx"
      and it: "gen_iter n ss seats cs strict s1 = Inr s'" "attempts s' = attempts s1 + int n"
      and mid: "\<forall>k<n. \<exists>sk. gen_iter k ss seats cs strict s1 = Inr sk \<and>
                     int (length (layouts sk)) < num \<and> attempts sk < mx"
      by blast
    have b1: "int (length (layouts s')) \<le> max (int (length (layouts s))) num"
      using a(4) p(4) True by auto
    have b2: "attempts s' \<le> max (attempts s) mx"
      using a(5) p(1) True by auto
    have it': "gen_iter (Suc n) ss seats cs strict s = Inr s'" using st it(1) by simp
    have at': "attempts s' = attempts s + int (Suc n)" using it(2) p(1) by simp
    have mid': "\<exists>sk. gen_iter k ss seats cs strict s = Inr sk \<and>
                     int (length (layouts sk)) < num \<and> attempts sk < mx" if "k < Suc n" for k
    proof (cases k)
      case 0
      with True show ?thesis by simp
    next
      case (Suc k')
      with that have "k' < n" by simp
      with mid Suc st show ?thesis by simp
    qed
    from a(1,3) a(2) p(2) b1 b2 it' at' mid' show ?thesis
      by (intro conjI exI [of _ "Suc n"]) auto
  qed
qed

lemma gen_step_total:
  assumes "distinct (students_arg s)" "session_has ss seats"
    and "can_read (gen_lr s) (id_Seat ` set seats)" "can_read (gen_9 s) (id_Seat ` set seats)"
  shows "\<exists>s'. gen_step ss seats cs strict s = Inr s'"
proof -
  define sh where "sh = shuffle (students_arg s) (gen_rng s)"
  have "mset (fst sh) = mset (students_arg s)" by (simp add: sh_def mset_shuffle)
  then have "distinct (fst sh)" using assms(1) by (metis mset_eq_imp_distinct_iff)
  from solve_one_assignment_total [OF this assms(2,3,4), of cs strict "snd sh"]
  show ?thesis
    by (auto simp: gen_step_def Let_def sh_def split: option.splits)
qed

lemma gen_loop_total:
  "distinct (students_arg s) \<Longrightarrow> session_has ss seats \<Longrightarrow>
   can_read (gen_lr s) (id_Seat ` set seats) \<Longrightarrow> can_read (gen_9 s) (id_Seat ` set seats) \<Longrightarrow>
   \<exists>s'. gen_loop ss num mx seats cs strict s = Inr s'"
proof (induction ss num mx seats cs strict s rule: gen_loop.induct)
  case (1 ss num mx seats cs strict s)
  show ?case
  proof (cases "int (length (layouts s)) < num \<and> attempts s < mx")
    case False
    then show ?thesis by (auto simp: gen_loop.simps [of ss num mx seats cs strict s])
  next
    case True
    from gen_step_total [OF "1.prems"] obtain s1 where st: "gen_step ss seats cs strict s = Inr s1"
      by blast
    note p = gen_step_props [OF st]
    have "distinct (students_arg s1)" using p(2) "1.prems"(1) by (metis mset_eq_imp_distinct_iff)
    moreover have "can_read (gen_lr s1) (id_Seat ` set seats)" "can_read (gen_9 s1) (id_Seat ` set seats)"
      using p(5,6) "1.prems"(3,4) by (auto intro: can_read_grown)
    ultimately have "\<exists>s'. gen_loop ss num mx seats cs strict s1 = Inr s'"
      using "1.prems"(2) by (intro "1.IH" [OF True st])
    with True st show ?thesis by (simp add: gen_loop.simps [of ss num mx seats cs strict s])
  qed
qed

lemma generate_multiple_layouts_props:
  assumes "generate_multiple_layouts ss num_layouts students seats cs lr a9 strict g = Inr s'"
  shows "gen_inv s'" and "mset (students_arg s') = mset students"
    and "\<not> (int (length (layouts s')) < num_layouts \<and> attempts s' < num_layouts * 30)"
    and "int (length (layouts s')) \<le> max 0 num_layouts"
    and "attempts s' \<le> max 0 (num_layouts * 30)"
    and "\<exists>n. gen_iter n ss seats cs strict (gen_init students lr a9 g) = Inr s' \<and>
           attempts s' = int n \<and>
           (\<forall>k<n. \<exists>sk. gen_iter k ss seats cs strict (gen_init students lr a9 g) = Inr sk \<and>
                     int (length (layouts sk)) < num_layouts \<and> attempts sk < num_layouts * 30)"
proof -
  let ?s = "gen_init students lr a9 g"
  from assms have lp: "gen_loop ss num_layouts (num_layouts * 30) seats cs strict ?s = Inr s'"
    by (simp add: generate_multiple_layouts_def Let_def)
  have i: "gen_inv ?s" by (simp add: gen_inv_def gen_init_def)
  have s: "layouts ?s = []" "attempts ?s = 0" "students_arg ?s = students"
    by (simp_all add: gen_init_def)
  note p = gen_loop_props [OF lp i, unfolded s]
  from p show "gen_inv s'" and "mset (students_arg s') = mset students"
    and "\<not> (int (length (layouts s')) < num_layouts \<and> attempts s' < num_layouts * 30)"
    and "int (length (layouts s')) \<le> max 0 num_layouts"
    and "attempts s' \<le> max 0 (num_layouts * 30)"
    by simp_all
  from p show "\<exists>n. gen_iter n ss seats cs strict ?s = Inr s' \<and>
           attempts s' = int n \<and>
           (\<forall>k<n. \<exists>sk. gen_iter k ss seats cs strict ?s = Inr sk \<and>
                     int (length (layouts sk)) < num_layouts \<and> attempts sk < num_layouts * 30)"
    by simp
qed

lemma gen_summary_Inr:
  "gen_summary r = Inr (ls, n, studs) \<Longrightarrow>
     \<exists>s'. r = Inr s' \<and> layouts s' = ls \<and> attempts s' = n \<and> students_arg s' = studs"
  by (auto simp: gen_summary_def split: sum.splits)

lemma gen_row3_two:
  "gen_summary (generate_multiple_layouts (init_session_state fresh_session seats_row3) 2 [1, 2, 3] seats_row3
     cs_row3 (fst (build_adjacency_maps seats_row3)) (snd (build_adjacency_maps seats_row3)) True [])
   = Inr ([[(2, 3), (3, 2), (1, 1)]], 60, [1, 2, 3])"
  by code_simp

lemma gen_row3_one:
  "gen_summary (generate_multiple_layouts (init_session_state fresh_session seats_row3) 1 [1, 2, 3] seats_row3
     cs_row3 (fst (build_adjacency_maps seats_row3)) (snd (build_adjacency_maps seats_row3)) True [])
   = Inr ([[(2, 3), (3, 2), (1, 1)]], 1, [2, 3, 1])"
  by code_simp

lemma solve_one_assignment_legal:
  assumes s: "solve_one_assignment ss students seats cs lr a9 strict g = Inr (Some a, st')"
    and sym: "sym_adj lr" "sym_adj a9"
  shows "legal_assignment students seats cs lr a9 strict a"
proof -
  note i = solve_one_assignment_Some(1) [OF s] and k = solve_one_assignment_Some(2) [OF s]
  from i have d: "distinct (map fst a)" "distinct (map snd a)"
    and pos: "\<forall>s p. (s, p) \<in> set a \<longrightarrow> placed_ok seats cs s p"
    and pairs: "\<And>s1 p1 s2 p2. (s1, p1) \<in> set a \<Longrightarrow> (s2, p2) \<in> set a \<Longrightarrow> s1 \<noteq> s2 \<Longrightarrow>
        pair_ok cs strict (neighbours lr) (neighbours a9) s1 p1 s2 p2"
    by (auto simp: inv_def)
  have P: "(s2 \<in> set (must_be_adjacent_to c) \<longrightarrow>
           p2 \<in> neighbours lr p1 \<and> p1 \<in> neighbours lr p2) \<and>
        (s2 \<in> set (must_not_adjacent_to c) \<longrightarrow>
           (if strict then p2 \<notin> neighbours a9 p1 \<and> p1 \<notin> neighbours a9 p2
            else p2 \<notin> neighbours lr p1 \<and> p1 \<notin> neighbours lr p2))"
    if "(s1, p1) \<in> set a" "(s2, p2) \<in> set a" "s1 \<noteq> s2" "cs s1 = Some c" for s1 p1 s2 p2 c
    using pairs [OF that(1,2,3)] that(4) sym
    by (auto simp: pair_ok_def apart_def sym_adj_def)
  show ?thesis
    unfolding legal_assignment_def using d k pos P by blast
qed

lemma no_legal_two_far:
  assumes far: "\<not> (\<bar>row s1 - row s2\<bar> \<le> 1 \<and> \<bar>col s1 - col s2\<bar> \<le> 1)"
    and cx: "cs x = Some cx" "y \<in> set (must_be_adjacent_to cx)" and xy: "x \<noteq> y"
  shows "\<not> legal_assignment [x, y] [s1, s2] cs (fst (build_adjacency_maps [s1, s2]))
            (snd (build_adjacency_maps [s1, s2])) strict a"
proof
  assume l: "legal_assignment [x, y] [s1, s2] cs (fst (build_adjacency_maps [s1, s2]))
            (snd (build_adjacency_maps [s1, s2])) strict a"
  then have "fst ` set a = {x, y}" by (simp add: legal_assignment_def)
  then obtain px py where m: "(x, px) \<in> set a" "(y, py) \<in> set a" by force
  from l m xy cx have "py \<in> neighbours (fst (build_adjacency_maps [s1, s2])) px"
    unfolding legal_assignment_def by blast
  then obtain sa sb where "sa \<in> set [s1, s2]" "sb \<in> set [s1, s2]" "lr_pair sa sb"
    unfolding neighbours_build_lr by blast
  with far show False by (auto simp: lr_pair_def)
qed

lemma can_read_build:
  "can_read (fst (build_adjacency_maps seats)) K" "can_read (snd (build_adjacency_maps seats)) K"
  by (simp_all add: can_read_def build_adjacency_maps_def Let_def)

lemma fold_upd_dom: "dom (fold (\<lambda>s m. m(id_Seat s \<mapsto> s)) seats m0) = dom m0 \<union> id_Seat ` set seats"
  by (induction seats arbitrary: m0) auto

lemma session_has_init: "session_has (init_session_state fresh_session seats) seats"
  by (simp add: session_has_def init_session_state_def fresh_session_def fold_upd_dom)

lemma generate_multiple_layouts_total:
  assumes "distinct students" "session_has ss seats"
    and "can_read lr (id_Seat ` set seats)" "can_read a9 (id_Seat ` set seats)"
  shows "\<exists>s'. generate_multiple_layouts ss num_layouts students seats cs lr a9 strict g = Inr s'"
  unfolding generate_multiple_layouts_def Let_def
  by (rule gen_loop_total) (simp_all add: gen_init_def assms)

section \<open>Claims about \<open>generate_multiple_layouts\<close>\<close>

text \<open>
  Claim C3. For every call \<open>generate_multiple_layouts(num_layouts, ...)\<close> that returns:
  the returned list has at most \<open>num_layouts\<close> assignments (none when \<open>num_layouts\<close> is
  negative); their canonical forms (the items sorted) are pairwise different; the loop body,
  which calls the solver once, has run \<open>n\<close> times, where \<open>n\<close> is the final value of
  \<open>attempts\<close> and at most \<open>num_layouts * 30\<close>; before each of these runs fewer than
  \<open>num_layouts\<close> layouts were collected and fewer than \<open>num_layouts * 30\<close> attempts made,
  and at the end one of the two bounds is reached, so the loop stops as soon as one is; and
  a run of the body in which the solver returns an assignment whose canonical form has been
  seen leaves the collected layouts as they are and counts one attempt.
\<close>

theorem generate_multiple_layouts_bounds:
  assumes "generate_multiple_layouts ss num_layouts students seats cs lr a9 strict g = Inr s'"
  shows
    "int (length (layouts s')) \<le> max 0 num_layouts \<and>
     distinct (map canonical (layouts s')) \<and>
     (\<exists>n. gen_iter n ss seats cs strict (gen_init students lr a9 g) = Inr s' \<and>
          attempts s' = int n \<and> int n \<le> max 0 (num_layouts * 30) \<and>
          (\<forall>k<n. \<exists>sk. gen_iter k ss seats cs strict (gen_init students lr a9 g) = Inr sk \<and>
                     int (length (layouts sk)) < num_layouts \<and> attempts sk < num_layouts * 30)) \<and>
     (num_layouts \<le> int (length (layouts s')) \<or> num_layouts * 30 \<le> attempts s') \<and>
     (\<forall>s r st.
        solve_one_assignment ss (fst (shuffle (students_arg s) (gen_rng s))) seats cs
            (gen_lr s) (gen_9 s) strict (snd (shuffle (students_arg s) (gen_rng s)))
          = Inr (Some r, st) \<and>
        canonical r \<in> seen s \<longrightarrow>
        (\<exists>s2. gen_step ss seats cs strict s = Inr s2 \<and> layouts s2 = layouts s \<and>
              seen s2 = seen s \<and> attempts s2 = attempts s + 1))"
proof -
  note p = generate_multiple_layouts_props [OF assms]
  from p(6) obtain n where
    n: "gen_iter n ss seats cs strict (gen_init students lr a9 g) = Inr s'" "attempts s' = int n"
      "\<forall>k<n. \<exists>sk. gen_iter k ss seats cs strict (gen_init students lr a9 g) = Inr sk \<and>
                     int (length (layouts sk)) < num_layouts \<and> attempts sk < num_layouts * 30"
    by blast
  from n(2) p(5) have "int n \<le> max 0 (num_layouts * 30)" by simp
  with n have A: "\<exists>n. gen_iter n ss seats cs strict (gen_init students lr a9 g) = Inr s' \<and>
          attempts s' = int n \<and> int n \<le> max 0 (num_layouts * 30) \<and>
          (\<forall>k<n. \<exists>sk. gen_iter k ss seats cs strict (gen_init students lr a9 g) = Inr sk \<and>
                     int (length (layouts sk)) < num_layouts \<and> attempts sk < num_layouts * 30)"
    by blast
  from p(3) have B: "num_layouts \<le> int (length (layouts s')) \<or> num_layouts * 30 \<le> attempts s'"
    by linarith
  from p(1) have C: "distinct (map canonical (layouts s'))" by (simp add: gen_inv_def)
  have D: "\<forall>s r st.
        solve_one_assignment ss (fst (shuffle (students_arg s) (gen_rng s))) seats cs
            (gen_lr s) (gen_9 s) strict (snd (shuffle (students_arg s) (gen_rng s)))
          = Inr (Some r, st) \<and>
        canonical r \<in> seen s \<longrightarrow>
        (\<exists>s2. gen_step ss seats cs strict s = Inr s2 \<and> layouts s2 = layouts s \<and>
              seen s2 = seen s \<and> attempts s2 = attempts s + 1)"
    using gen_step_duplicate by blast
  from p(4) C A B D show ?thesis by (intro conjI)
qed

theorem generate_multiple_layouts_bounds_witness:
  "\<exists>s'. generate_multiple_layouts (init_session_state fresh_session seats_row3) 2 [1, 2, 3] seats_row3 cs_row3
       (fst (build_adjacency_maps seats_row3)) (snd (build_adjacency_maps seats_row3)) True []
       = Inr s' \<and>
     layouts s' = [[(2, 3), (3, 2), (1, 1)]] \<and> attempts s' = 60 \<and>
     int (length (layouts s')) \<le> max 0 2 \<and> distinct (map canonical (layouts s')) \<and>
     (\<exists>n. gen_iter n (init_session_state fresh_session seats_row3) seats_row3 cs_row3 True
            (gen_init [1, 2, 3] (fst (build_adjacency_maps seats_row3))
               (snd (build_adjacency_maps seats_row3)) []) = Inr s' \<and>
          int n = 60)"
proof -
  obtain s' where s: "generate_multiple_layouts (init_session_state fresh_session seats_row3) 2 [1, 2, 3] seats_row3
       cs_row3 (fst (build_adjacency_maps seats_row3)) (snd (build_adjacency_maps seats_row3)) True []
       = Inr s'"
    and l: "layouts s' = [[(2, 3), (3, 2), (1, 1)]]" and a: "attempts s' = 60"
    using gen_summary_Inr [OF gen_row3_two] by blast
  note t = generate_multiple_layouts_bounds [OF s]
  from t have "int (length (layouts s')) \<le> max 0 2" by (rule conjunct1)
  moreover from t have "distinct (map canonical (layouts s'))"
    by (rule conjunct1 [OF conjunct2])
  moreover from t a have "\<exists>n. gen_iter n (init_session_state fresh_session seats_row3) seats_row3 cs_row3 True
            (gen_init [1, 2, 3] (fst (build_adjacency_maps seats_row3))
               (snd (build_adjacency_maps seats_row3)) []) = Inr s' \<and> int n = 60"
    by auto
  ultimately show ?thesis using s l a by blast
qed

text \<open>
  Claim C10. \<open>generate_multiple_layouts\<close> shuffles the caller's list of students in
  place: after a call that returns, the list holds the same students, and its order may
  differ from the order before the call, as in the call shown, where \<open>[1, 2, 3]\<close> ends as
  \<open>[2, 3, 1]\<close>.
\<close>

theorem generate_multiple_layouts_reorders_students:
  "(generate_multiple_layouts ss num_layouts students seats cs lr a9 strict g = Inr s' \<longrightarrow>
      mset (students_arg s') = mset students) \<and>
   (\<exists>s1. generate_multiple_layouts (init_session_state fresh_session seats_row3) 1 [1, 2, 3] seats_row3 cs_row3
       (fst (build_adjacency_maps seats_row3)) (snd (build_adjacency_maps seats_row3)) True []
       = Inr s1 \<and>
     students_arg s1 = [2, 3, 1])"
proof
  show "generate_multiple_layouts ss num_layouts students seats cs lr a9 strict g = Inr s' \<longrightarrow>
      mset (students_arg s') = mset students"
    using generate_multiple_layouts_props(2) by blast
  show "\<exists>s1. generate_multiple_layouts (init_session_state fresh_session seats_row3) 1 [1, 2, 3] seats_row3 cs_row3
       (fst (build_adjacency_maps seats_row3)) (snd (build_adjacency_maps seats_row3)) True []
       = Inr s1 \<and>
     students_arg s1 = [2, 3, 1]"
    using gen_summary_Inr [OF gen_row3_one] by blast
qed

theorem generate_multiple_layouts_reorders_students_witness:
  "\<exists>s'. generate_multiple_layouts (init_session_state fresh_session seats_row3) 1 [1, 2, 3] seats_row3 cs_row3
       (fst (build_adjacency_maps seats_row3)) (snd (build_adjacency_maps seats_row3)) True []
       = Inr s' \<and>
     students_arg s' = [2, 3, 1] \<and> students_arg s' \<noteq> [1, 2, 3] \<and>
     mset (students_arg s') = mset [1, 2, 3]"
proof -
  obtain s' where s: "generate_multiple_layouts (init_session_state fresh_session seats_row3) 1 [1, 2, 3] seats_row3
       cs_row3 (fst (build_adjacency_maps seats_row3)) (snd (build_adjacency_maps seats_row3)) True []
       = Inr s'"
    and a: "students_arg s' = [2, 3, 1]"
    using gen_summary_Inr [OF gen_row3_one] by blast
  from generate_multiple_layouts_reorders_students
    [of "init_session_state fresh_session seats_row3" 1 "[1, 2, 3]" seats_row3 cs_row3
        "fst (build_adjacency_maps seats_row3)" "snd (build_adjacency_maps seats_row3)" True "[]" s']
    s
  have "mset (students_arg s') = mset [1, 2, 3]" by blast
  with s a show ?thesis by auto
qed

lemma no_exception_unlimited:
  assumes d: "distinct students" and sh: "session_has ss seats"
    and cr: "can_read lr (id_Seat ` set seats)" "can_read a9 (id_Seat ` set seats)"
  shows
    "(\<exists>r st'. solve_one_assignment ss students seats cs lr a9 strict g = Inr (r, st') \<and>
        (sym_adj lr \<and> sym_adj a9 \<and>
         (\<forall>a. \<not> legal_assignment students seats cs lr a9 strict a) \<longrightarrow> r = None)) \<and>
     (\<exists>s'. generate_multiple_layouts ss num_layouts students seats cs lr a9 strict g = Inr s') \<and>
     (\<forall>s1 s2 x y cx cy.
        seats = [s1, s2] \<and> \<not> (\<bar>row s1 - row s2\<bar> \<le> 1 \<and> \<bar>col s1 - col s2\<bar> \<le> 1) \<and>
        students = [x, y] \<and>
        cs x = Some cx \<and> y \<in> set (must_be_adjacent_to cx) \<and>
        cs y = Some cy \<and> x \<in> set (must_be_adjacent_to cy) \<and>
        lr = fst (build_adjacency_maps seats) \<and> a9 = snd (build_adjacency_maps seats) \<longrightarrow>
        (\<exists>st'. solve_one_assignment ss students seats cs lr a9 strict g = Inr (None, st')))"
proof (intro conjI)
  from solve_one_assignment_total [OF d sh cr, of cs strict g] obtain r st' where
    s: "solve_one_assignment ss students seats cs lr a9 strict g = Inr (r, st')" by blast
  have none: "r = None"
    if "sym_adj lr" "sym_adj a9" "\<forall>a. \<not> legal_assignment students seats cs lr a9 strict a"
  proof (cases r)
    case None
    then show ?thesis .
  next
    case (Some a)
    with s that(1,2) have "legal_assignment students seats cs lr a9 strict a"
      by (simp add: solve_one_assignment_legal)
    with that(3) show ?thesis by blast
  qed
  with s show A: "\<exists>r st'. solve_one_assignment ss students seats cs lr a9 strict g = Inr (r, st') \<and>
        (sym_adj lr \<and> sym_adj a9 \<and>
         (\<forall>a. \<not> legal_assignment students seats cs lr a9 strict a) \<longrightarrow> r = None)"
    by blast
  show "\<exists>s'. generate_multiple_layouts ss num_layouts students seats cs lr a9 strict g = Inr s'"
    using d sh cr by (rule generate_multiple_layouts_total)
  show "\<forall>s1 s2 x y cx cy.
        seats = [s1, s2] \<and> \<not> (\<bar>row s1 - row s2\<bar> \<le> 1 \<and> \<bar>col s1 - col s2\<bar> \<le> 1) \<and>
        students = [x, y] \<and>
        cs x = Some cx \<and> y \<in> set (must_be_adjacent_to cx) \<and>
        cs y = Some cy \<and> x \<in> set (must_be_adjacent_to cy) \<and>
        lr = fst (build_adjacency_maps seats) \<and> a9 = snd (build_adjacency_maps seats) \<longrightarrow>
        (\<exists>st'. solve_one_assignment ss students seats cs lr a9 strict g = Inr (None, st'))"
  proof (intro allI impI)
    fix s1 s2 x y cx cy
    assume h: "seats = [s1, s2] \<and> \<not> (\<bar>row s1 - row s2\<bar> \<le> 1 \<and> \<bar>col s1 - col s2\<bar> \<le> 1) \<and>
        students = [x, y] \<and>
        cs x = Some cx \<and> y \<in> set (must_be_adjacent_to cx) \<and>
        cs y = Some cy \<and> x \<in> set (must_be_adjacent_to cy) \<and>
        lr = fst (build_adjacency_maps seats) \<and> a9 = snd (build_adjacency_maps seats)"
    from h d have xy: "x \<noteq> y" by auto
    from h have far: "\<not> (\<bar>row s1 - row s2\<bar> \<le> 1 \<and> \<bar>col s1 - col s2\<bar> \<le> 1)"
      and cx: "cs x = Some cx" "y \<in> set (must_be_adjacent_to cx)" by simp_all
    have "\<forall>a. \<not> legal_assignment students seats cs lr a9 strict a"
      using far cx xy h by (simp add: no_legal_two_far)
    moreover have "sym_adj lr" "sym_adj a9" using h sym_adj_build by simp_all
    ultimately have "r = None" using none by blast
    with s show "\<exists>st'. solve_one_assignment ss students seats cs lr a9 strict g = Inr (None, st')"
      by blast
  qed
qed

section \<open>With enough free frames the bounded run is the unbounded one\<close>

lemma shuffle_lim_enough: "2 \<le> b \<Longrightarrow> shuffle_lim b x g = Inr (shuffle x g)"
  by (simp add: shuffle_lim_def shuffle_frames_def)

lemma candidate_seats_lim_enough:
  "1 \<le> b \<Longrightarrow> candidate_seats_lim b seats a sc = Inr (candidate_seats seats a sc)"
  by (simp add: candidate_seats_lim_def)

lemma check_partial_constraints_lim_enough:
  "1 + max 1 sd \<le> b \<Longrightarrow>
     check_partial_constraints_lim sd b ss a sid seat_id cs lr a9 strict =
     check_partial_constraints ss a sid seat_id cs lr a9 strict"
  by (auto simp: check_partial_constraints_lim_def check_partial_constraints_def
      split: sum.splits)

lemma try_seats_lim_enough:
  assumes BT: "\<And>st. backtrack_lim sd (b - 1) ss seats cs strict rest st =
                     backtrack ss seats cs strict rest st"
    and b: "1 + max 1 sd \<le> b"
  shows "try_seats_lim sd b ss seats cs strict sid rest cands st =
         try_seats ss seats cs strict sid rest cands st"
proof (induction cands arbitrary: st)
  case Nil
  show ?case by simp
next
  case (Cons seat_id others)
  from b have b1: "0 < b" by simp
  show ?case
    using b1
    by (simp add: check_partial_constraints_lim_enough [OF b] BT [unfolded One_nat_def] Cons.IH
        cong: sum.case_cong prod.case_cong if_cong)
qed

lemma backtrack_lim_enough:
  "length studs + max 1 sd \<le> b \<Longrightarrow>
     backtrack_lim sd b ss seats cs strict studs st = backtrack ss seats cs strict studs st"
proof (induction studs arbitrary: b st)
  case Nil
  show ?case by simp
next
  case (Cons sid rest)
  from Cons.prems have b: "1 + max 1 sd \<le> b" and r: "length rest + max 1 sd \<le> b - 1"
    by simp_all
  have BT: "backtrack_lim sd (b - 1) ss seats cs strict rest s = backtrack ss seats cs strict rest s"
    for s
    using r by (rule Cons.IH)
  from b have b2: "2 \<le> b" "1 \<le> b" by simp_all
  show ?case
    by (simp add: candidate_seats_lim_enough [OF b2(2)] shuffle_lim_enough [OF b2(1)]
        try_seats_lim_enough [OF BT b] Let_def)
qed

lemma solve_one_assignment_lim_enough:
  assumes "length students + max 1 sd + 1 \<le> f"
  shows "solve_one_assignment_lim sd f ss students seats cs lr a9 strict g =
         solve_one_assignment ss students seats cs lr a9 strict g"
proof -
  have "length (students_sorted cs students) + max 1 sd \<le> f - 1"
    using assms by (simp add: students_sorted_def)
  from backtrack_lim_enough [OF this] assms show ?thesis
    by (simp add: solve_one_assignment_lim_def solve_one_assignment_def)
qed

lemma length_shuffle: "length (fst (shuffle x g)) = length x"
  using mset_shuffle [of x g] by (metis size_mset)

lemma gen_step_lim_enough:
  assumes "length (students_arg s) + max 1 sd + 2 \<le> f"
  shows "gen_step_lim sd f ss seats cs strict s = gen_step ss seats cs strict s"
proof -
  from assms have f: "2 \<le> f" "\<not> f < 1" by simp_all
  have "length (fst (shuffle (students_arg s) (gen_rng s))) + max 1 sd + 1 \<le> f - 1"
    using assms by (simp add: length_shuffle)
  from solve_one_assignment_lim_enough [OF this] f show ?thesis
    by (simp add: gen_step_lim_def gen_step_def shuffle_lim_enough Let_def)
qed

lemma gen_loop_lim_enough:
  "length (students_arg s) + max 1 sd + 2 \<le> f \<Longrightarrow>
     gen_loop_lim sd f ss num mx seats cs strict s = gen_loop ss num mx seats cs strict s"
proof (induction ss num mx seats cs strict s rule: gen_loop.induct)
  case (1 ss num mx seats cs strict s)
  show ?case
  proof (cases "int (length (layouts s)) < num \<and> attempts s < mx")
    case False
    then show ?thesis
      by (auto simp: gen_loop.simps [of ss num mx seats cs strict s]
          gen_loop_lim.simps [of sd f ss num mx seats cs strict s])
  next
    case True
    note e = gen_step_lim_enough [OF "1.prems", of ss seats cs strict]
    show ?thesis
    proof (cases "gen_step ss seats cs strict s")
      case (Inl err)
      with True e show ?thesis
        by (simp add: gen_loop.simps [of ss num mx seats cs strict s]
            gen_loop_lim.simps [of sd f ss num mx seats cs strict s])
    next
      case (Inr s1)
      from gen_step_props(2) [OF Inr] have "length (students_arg s1) = length (students_arg s)"
        by (metis size_mset)
      with "1.prems" have "length (students_arg s1) + max 1 sd + 2 \<le> f" by simp
      from "1.IH" [OF True Inr this] True e Inr show ?thesis
        by (simp add: gen_loop.simps [of ss num mx seats cs strict s]
            gen_loop_lim.simps [of sd f ss num mx seats cs strict s])
    qed
  qed
qed

lemma generate_multiple_layouts_lim_enough:
  assumes "length students + max 1 sd + 2 \<le> f"
  shows "generate_multiple_layouts_lim sd f ss num_layouts students seats cs lr a9 strict g =
         generate_multiple_layouts ss num_layouts students seats cs lr a9 strict g"
  unfolding generate_multiple_layouts_lim_def generate_multiple_layouts_def Let_def
  using assms by (intro gen_loop_lim_enough) (simp add: gen_init_def)

section \<open>What a bounded run returns, the unbounded run returns\<close>

lemma check_partial_constraints_lim_Inr:
  "check_partial_constraints_lim sd b ss a sid seat_id cs lr a9 strict = Inr r \<Longrightarrow>
     check_partial_constraints ss a sid seat_id cs lr a9 strict = Inr r"
  by (auto simp: check_partial_constraints_lim_def split: if_splits sum.splits)

lemma try_seats_lim_Inr:
  assumes BT: "\<And>st r. backtrack_lim sd (b - 1) ss seats cs strict rest st = Inr r \<Longrightarrow>
                     backtrack ss seats cs strict rest st = Inr r"
  shows "try_seats_lim sd b ss seats cs strict sid rest cands st = Inr r \<Longrightarrow>
         try_seats ss seats cs strict sid rest cands st = Inr r"
proof (induction cands arbitrary: st)
  case Nil
  then show ?case by simp
next
  case (Cons seat_id others)
  from Cons.prems obtain ok lr' a9' where
    cl: "check_partial_constraints_lim sd b ss (assignments st) sid seat_id cs (adj_lr st)
           (adj_9 st) strict = Inr (ok, lr', a9')"
    by (auto split: sum.splits)
  then have c: "check_partial_constraints ss (assignments st) sid seat_id cs (adj_lr st)
           (adj_9 st) strict = Inr (ok, lr', a9')"
    by (rule check_partial_constraints_lim_Inr)
  show ?case
  proof (cases ok)
    case False
    with Cons.prems cl have "try_seats_lim sd b ss seats cs strict sid rest others
        (st\<lparr>adj_lr := lr', adj_9 := a9'\<rparr>) = Inr r" by simp
    then have "try_seats ss seats cs strict sid rest others
        (st\<lparr>adj_lr := lr', adj_9 := a9'\<rparr>) = Inr r" by (rule Cons.IH)
    with c False show ?thesis by simp
  next
    case True
    let ?st2 = "st\<lparr>adj_lr := lr', adj_9 := a9',
                  assignments := AList.update sid seat_id (assignments st)\<rparr>"
    from Cons.prems cl True obtain found st' where
      bl: "backtrack_lim sd (b - 1) ss seats cs strict rest ?st2 = Inr (found, st')"
      by (auto split: sum.splits if_splits)
    then have bt: "backtrack ss seats cs strict rest ?st2 = Inr (found, st')" by (rule BT)
    show ?thesis
    proof (cases found)
      case f: True
      with Cons.prems cl True bl have "r = (True, st')" by (auto split: if_splits)
      with c True bt f show ?thesis by simp
    next
      case f: False
      with Cons.prems cl True bl have k: "sid \<in> fst ` set (assignments st')"
        and t: "try_seats_lim sd b ss seats cs strict sid rest others
                  (st'\<lparr>assignments := AList.delete sid (assignments st')\<rparr>) = Inr r"
        by (auto split: if_splits)
      from t have "try_seats ss seats cs strict sid rest others
                  (st'\<lparr>assignments := AList.delete sid (assignments st')\<rparr>) = Inr r"
        by (rule Cons.IH)
      with c True bt f k show ?thesis by simp
    qed
  qed
qed

lemma backtrack_lim_Inr:
  "backtrack_lim sd b ss seats cs strict studs st = Inr r \<Longrightarrow>
     backtrack ss seats cs strict studs st = Inr r"
proof (induction studs arbitrary: b st r)
  case Nil
  then show ?case by simp
next
  case (Cons sid rest)
  from Cons.prems have t: "try_seats_lim sd b ss seats cs strict sid rest
      (fst (shuffle (candidate_seats seats (assignments st) (cs sid)) (rng_state st)))
      (st\<lparr>rng_state := snd (shuffle (candidate_seats seats (assignments st) (cs sid)) (rng_state st))\<rparr>)
      = Inr r"
    by (auto simp: candidate_seats_lim_def shuffle_lim_def split: sum.splits if_splits)
  have "try_seats ss seats cs strict sid rest
      (fst (shuffle (candidate_seats seats (assignments st) (cs sid)) (rng_state st)))
      (st\<lparr>rng_state := snd (shuffle (candidate_seats seats (assignments st) (cs sid)) (rng_state st))\<rparr>)
      = Inr r"
    using Cons.IH t by (rule try_seats_lim_Inr)
  then show ?case by (simp add: Let_def)
qed

lemma solve_one_assignment_lim_Inr:
  "solve_one_assignment_lim sd f ss students seats cs lr a9 strict g = Inr r \<Longrightarrow>
     solve_one_assignment ss students seats cs lr a9 strict g = Inr r"
  by (auto simp: solve_one_assignment_lim_def solve_one_assignment_def
      split: if_splits sum.splits dest!: backtrack_lim_Inr)

lemma gen_step_lim_Inr:
  "gen_step_lim sd f ss seats cs strict s = Inr s' \<Longrightarrow> gen_step ss seats cs strict s = Inr s'"
  by (auto simp: gen_step_lim_def gen_step_def shuffle_lim_def Let_def
      split: if_splits sum.splits dest!: solve_one_assignment_lim_Inr)

lemma gen_loop_lim_Inr:
  "gen_loop_lim sd f ss num mx seats cs strict s = Inr s' \<Longrightarrow>
     gen_loop ss num mx seats cs strict s = Inr s'"
proof (induction sd f ss num mx seats cs strict s rule: gen_loop_lim.induct)
  case (1 sd f ss num mx seats cs strict s)
  show ?case
  proof (cases "int (length (layouts s)) < num \<and> attempts s < mx")
    case False
    with "1.prems" have "s' = s"
      by (simp add: gen_loop_lim.simps [of sd f ss num mx seats cs strict s])
    moreover from False have "gen_loop ss num mx seats cs strict s = Inr s"
      by (auto simp: gen_loop.simps [of ss num mx seats cs strict s])
    ultimately show ?thesis by simp
  next
    case True
    with "1.prems" obtain s1 where st: "gen_step_lim sd f ss seats cs strict s = Inr s1"
      and lp: "gen_loop_lim sd f ss num mx seats cs strict s1 = Inr s'"
      by (auto simp: gen_loop_lim.simps [of sd f ss num mx seats cs strict s] split: sum.splits)
    from "1.IH" [OF True st lp] gen_step_lim_Inr [OF st] True show ?thesis
      by (simp add: gen_loop.simps [of ss num mx seats cs strict s])
  qed
qed

lemma generate_multiple_layouts_lim_Inr:
  "generate_multiple_layouts_lim sd f ss num_layouts students seats cs lr a9 strict g = Inr s' \<Longrightarrow>
     generate_multiple_layouts ss num_layouts students seats cs lr a9 strict g = Inr s'"
  unfolding generate_multiple_layouts_lim_def generate_multiple_layouts_def Let_def
  by (rule gen_loop_lim_Inr)

lemma result_of_None: "result_of r = Inr None \<Longrightarrow> \<exists>st'. r = Inr (None, st')"
  by (auto simp: result_of_def split: sum.splits)

section \<open>The claim about failure\<close>

text \<open>
  Claim C4, as the code has it. On a well-formed call, \<open>solve_one_assignment\<close> returns
  and raises nothing, and \<open>generate_multiple_layouts\<close> returns its list and raises
  nothing; when moreover the adjacency maps are symmetric and no legal full assignment
  exists, the solver returns \<open>None\<close>. Well-formed means: no student twice in the list; a
  session that holds a seat under \<open>seat_by_id\<close> for every seat id of the layout; adjacency
  maps that can be subscripted at every seat id (a \<open>defaultdict(set)\<close>, or a \<open>dict\<close> with
  all seat ids as keys); and a stack on which the body of the function can still nest as
  many calls as there are students, plus the depth of the session's subscripts (at least
  one), plus two. In particular, on such a call, for a layout of exactly two seats that are
  more than one row or more than one column apart, with the maps of
  \<open>build_adjacency_maps\<close>, and two students each of whom requires the other as a
  neighbour, the solver returns \<open>None\<close>, for every random source and in both modes.
\<close>

theorem well_formed_unsatisfiable_returns_None:
  assumes d: "distinct students" and sh: "session_has ss seats"
    and cr: "can_read lr (id_Seat ` set seats)" "can_read a9 (id_Seat ` set seats)"
    and fr: "length students + max 1 sd + 2 \<le> f"
  shows
    "(\<exists>r st'. solve_one_assignment_lim sd f ss students seats cs lr a9 strict g = Inr (r, st') \<and>
        (sym_adj lr \<and> sym_adj a9 \<and>
         (\<forall>a. \<not> legal_assignment students seats cs lr a9 strict a) \<longrightarrow> r = None)) \<and>
     (\<exists>s'. generate_multiple_layouts_lim sd f ss num_layouts students seats cs lr a9 strict g
             = Inr s') \<and>
     (\<forall>s1 s2 x y cx cy.
        seats = [s1, s2] \<and> \<not> (\<bar>row s1 - row s2\<bar> \<le> 1 \<and> \<bar>col s1 - col s2\<bar> \<le> 1) \<and>
        students = [x, y] \<and>
        cs x = Some cx \<and> y \<in> set (must_be_adjacent_to cx) \<and>
        cs y = Some cy \<and> x \<in> set (must_be_adjacent_to cy) \<and>
        lr = fst (build_adjacency_maps seats) \<and> a9 = snd (build_adjacency_maps seats) \<longrightarrow>
        (\<exists>st'. solve_one_assignment_lim sd f ss students seats cs lr a9 strict g
                = Inr (None, st')))"
proof -
  from fr have f1: "length students + max 1 sd + 1 \<le> f" by simp
  show ?thesis
    unfolding solve_one_assignment_lim_enough [OF f1] generate_multiple_layouts_lim_enough [OF fr]
    using d sh cr by (rule no_exception_unlimited)
qed

theorem well_formed_unsatisfiable_returns_None_witness:
  "distinct [1, 2 :: int] \<and> session_has (init_session_state fresh_session seats_far2) seats_far2 \<and>
   length [1, 2 :: int] + max 1 1 + 2 \<le> (100 :: nat) \<and>
   (\<exists>st'. solve_one_assignment_lim 1 100 (init_session_state fresh_session seats_far2) [1, 2]
        seats_far2 cs_pair
        (fst (build_adjacency_maps seats_far2)) (snd (build_adjacency_maps seats_far2)) True []
      = Inr (None, st')) \<and>
   (\<exists>s'. generate_multiple_layouts_lim 1 100 (init_session_state fresh_session seats_far2) 1 [1, 2]
        seats_far2 cs_pair
        (fst (build_adjacency_maps seats_far2)) (snd (build_adjacency_maps seats_far2)) True []
      = Inr s')"
proof -
  have d: "distinct [1, 2 :: int]" by simp
  have fr: "length [1, 2 :: int] + max 1 1 + 2 \<le> (100 :: nat)" by simp
  note sh = session_has_init [of seats_far2]
  note t = well_formed_unsatisfiable_returns_None [OF d sh can_read_build fr,
      where cs = cs_pair and strict = True and g = "[]" and num_layouts = 1]
  have c: "cs_pair 1 = Some \<lparr>id_SC = 1, allowed_rows = None, allowed_cols = None,
             must_be_adjacent_to = [2], must_not_adjacent_to = []\<rparr>"
    "cs_pair 2 = Some \<lparr>id_SC = 2, allowed_rows = None, allowed_cols = None,
             must_be_adjacent_to = [1], must_not_adjacent_to = []\<rparr>"
    by (simp_all add: cs_pair_def)
  from t [THEN conjunct2, THEN conjunct2, rule_format,
      of "\<lparr>id_Seat = 1, row = 1, col = 1\<rparr>" "\<lparr>id_Seat = 2, row = 3, col = 3\<rparr>" 1 2] c
  have "\<exists>st'. solve_one_assignment_lim 1 100 (init_session_state fresh_session seats_far2) [1, 2]
        seats_far2 cs_pair
        (fst (build_adjacency_maps seats_far2)) (snd (build_adjacency_maps seats_far2)) True []
      = Inr (None, st')"
    by (simp add: seats_far2_def)
  moreover from t have "\<exists>s'. generate_multiple_layouts_lim 1 100
        (init_session_state fresh_session seats_far2) 1 [1, 2]
        seats_far2 cs_pair (fst (build_adjacency_maps seats_far2))
        (snd (build_adjacency_maps seats_far2)) True [] = Inr s'"
    by (rule conjunct1 [OF conjunct2])
  ultimately show ?thesis using d sh fr by simp
qed

text \<open>
  Claim C4 as stated fails. On the two far seats with the two students who require each
  other, where no legal full assignment exists, the solver raises \<open>KeyError\<close> when the
  adjacency maps are plain dictionaries without keys, when the session has no
  \<open>seat_by_id\<close>, and when the list of students is \<open>[1, 1, 2]\<close> (the second
  \<open>del assignments[1]\<close>, l.228); and it raises \<open>RecursionError\<close> when its body can nest
  three calls only, while with four it returns \<open>None\<close>.
\<close>

theorem unsatisfiable_raises_counterexample:
  "result_of (solve_one_assignment_lim 1 100 (init_session_state fresh_session seats_far2) [1, 2]
      seats_far2 cs_pair plain_empty_dict plain_empty_dict True []) = Inl KeyError \<and>
   result_of (solve_one_assignment_lim 1 100 fresh_session [1, 2] seats_far2 cs_pair
      (fst (build_adjacency_maps seats_far2)) (snd (build_adjacency_maps seats_far2)) True [])
     = Inl KeyError \<and>
   result_of (solve_one_assignment_lim 1 100 (init_session_state fresh_session seats_far2) [1, 1, 2]
      seats_far2 cs_pair
      (fst (build_adjacency_maps seats_far2)) (snd (build_adjacency_maps seats_far2)) True [])
     = Inl KeyError \<and>
   result_of (solve_one_assignment_lim 1 3 (init_session_state fresh_session seats_far2) [1, 2]
      seats_far2 cs_pair
      (fst (build_adjacency_maps seats_far2)) (snd (build_adjacency_maps seats_far2)) True [])
     = Inl RecursionError \<and>
   result_of (solve_one_assignment_lim 1 4 (init_session_state fresh_session seats_far2) [1, 2]
      seats_far2 cs_pair
      (fst (build_adjacency_maps seats_far2)) (snd (build_adjacency_maps seats_far2)) True [])
     = Inr None"
  by code_simp

end
